theory Spec2Isabelle
  imports Complex_Main "HOL-Library.AList" "HOL-Library.Product_Lexorder"
begin

unbundle bit_operations_syntax

section \<open>The tree-sequence simplifier of simplify\_algorithms.py\<close>

text \<open>
  The development embeds class \<open>Simplifier\<close> of
  \<^verbatim>\<open>src/simplify_work/simplify_algorithms.py\<close>. Coordinates and times are exact
  rationals (the source only compares them, takes minima and forms \<open>m + 1\<close>), node
  ids are naturals, node flags are Python's unbounded integers.

  A \<open>Segment\<close> object with its \<open>next\<close> pointer is a linked chain. The source never
  reads \<open>prev\<close>, and every segment hangs in at most one chain (a chain is owned by one
  entry of \<open>A\<close>, one entry of the heap \<open>H\<close>, or one local variable), so a chain is
  rendered as the list of its segments: \<open>None\<close> is \<open>[]\<close>, \<open>x.next\<close> is the tail.
\<close>

subsection \<open>Data\<close>

datatype py_error = TypeError | AttributeError | KeyError | IndexError | ValueError | AssertionError

record segment =
  left :: rat
  right :: rat
  node :: nat

record node_row =
  flags :: int
  time :: rat
  population :: int

record edgeset =
  eleft :: rat
  eright :: rat
  parent :: nat
  children :: "nat list"

record mutation =
  mnode :: nat
  derived_state :: string

record site =
  position :: rat
  ancestral_state :: string
  mutations :: "mutation list"

text \<open>Modelled from the spec: the class \<open>TreeSequence\<close> of the msprime module the script
  imports is missing (the \<open>trees.py\<close> among the sources has none of the methods used here).
  The input is what the spec's read-only view delivers: \<open>nodes()\<close> in id order, each with
  flags, time and population; \<open>edgesets()\<close>, each with left, right, parent and children;
  \<open>sites()\<close>, each with position, ancestral state and mutations (node, derived state);
  and \<open>sequence_length\<close>.\<close>

record tree_sequence =
  ts_nodes :: "node_row list"
  ts_edgesets :: "edgeset list"
  ts_sites :: "site list"
  sequence_length :: rat

type_synonym edgeset_row = "rat \<times> rat \<times> nat \<times> nat list"

text \<open>A heap entry \<open>(x.left, x)\<close>: the key, the segment \<open>x\<close> and the chain \<open>x.next\<close>.\<close>

type_synonym heap_entry = "rat \<times> segment \<times> segment list"

text \<open>The attributes of a \<open>Simplifier\<close> object. \<open>self.n\<close> and \<open>self.m\<close> are the fields
  \<open>self_n\<close> and \<open>self_m\<close>; the dictionaries \<open>A\<close> and \<open>sites\<close> and the ordered map
  \<open>S\<close> (a \<open>bintrees.AVLTree\<close>) are association lists with unique keys.\<close>

record simplifier =
  ts :: tree_sequence
  sample :: "nat list"
  self_n :: nat
  self_m :: rat
  A :: "(nat \<times> segment list) list"
  node_table :: "node_row list"
  edgeset_table :: "edgeset_row list"
  sites :: "(rat \<times> site) list"
  last_edgeset :: "edgeset_row option"
  num_output_nodes :: nat
  num_output_mutations :: nat
  num_output_sites :: nat
  num_used_segments :: int
  S :: "(rat \<times> int) list"

text \<open>Modelled from the spec: the constant \<open>msprime.NODE_IS_SAMPLE\<close> is missing. The spec
  calls it the flag bit of a sample node; it is taken as bit 0.\<close>

definition NODE_IS_SAMPLE :: int where
  "NODE_IS_SAMPLE = 1"

subsection \<open>The segment pool\<close>

definition alloc_segment :: "simplifier \<Rightarrow> rat \<Rightarrow> rat \<Rightarrow> nat \<Rightarrow> segment \<times> simplifier" where
  "alloc_segment st l r u =
     (\<lparr>left = l, right = r, node = u\<rparr>,
      st\<lparr>num_used_segments := num_used_segments st + 1\<rparr>)"

definition free_segment :: "simplifier \<Rightarrow> segment \<Rightarrow> simplifier" where
  "free_segment st u = st\<lparr>num_used_segments := num_used_segments st - 1\<rparr>"

subsection \<open>Output nodes\<close>

text \<open>Modelled from the spec: the accessor \<open>ts.node(id)\<close> is missing. It delivers the row
  \<open>(flags, time, population)\<close> of the node table; for an id outside the table the call
  raises instead of returning (\<open>IndexError\<close> here).\<close>

definition ts_node :: "tree_sequence \<Rightarrow> nat \<Rightarrow> py_error + node_row" where
  "ts_node t i = (if i < length (ts_nodes t) then Inr (ts_nodes t ! i) else Inl IndexError)"

definition record_sample_node :: "simplifier \<Rightarrow> nat \<Rightarrow> py_error + simplifier" where
  "record_sample_node st input_id =
     (case ts_node (ts st) input_id of
        Inl e \<Rightarrow> Inl e
      | Inr nd \<Rightarrow>
          Inr (st\<lparr>node_table := node_table st @
                     [\<lparr>flags = flags nd AND NODE_IS_SAMPLE, time = time nd,
                       population = population nd\<rparr>],
                  num_output_nodes := num_output_nodes st + 1\<rparr>))"

text \<open>\<open>list.index\<close>: the position of the first occurrence, \<open>ValueError\<close> when absent.\<close>

fun list_index :: "nat list \<Rightarrow> nat \<Rightarrow> py_error + nat" where
  "list_index [] v = Inl ValueError"
| "list_index (x # xs) v =
     (if x = v then Inr 0
      else (case list_index xs v of Inl e \<Rightarrow> Inl e | Inr i \<Rightarrow> Inr (Suc i)))"

text \<open>The source computes \<open>flags = node.flags & ~NODE_IS_SAMPLE\<close> into a local and then
  passes \<open>flags=node.flags\<close> to \<open>add_row\<close>; the local is bound here as it is there.\<close>

definition check_or_record_node :: "simplifier \<Rightarrow> nat \<Rightarrow> py_error + (nat \<times> simplifier)" where
  "check_or_record_node st input_id =
     (if input_id \<notin> set (sample st) then
        (case ts_node (ts st) input_id of
           Inl e \<Rightarrow> Inl e
         | Inr nd \<Rightarrow>
             (let flags_local = flags nd AND NOT NODE_IS_SAMPLE;
                  st1 = st\<lparr>node_table := node_table st @
                              [\<lparr>flags = flags nd, time = time nd,
                                population = population nd\<rparr>],
                           num_output_nodes := num_output_nodes st + 1\<rparr>
              in Inr (num_output_nodes st1 - 1, st1)))
      else
        (case list_index (sample st) input_id of
           Inl e \<Rightarrow> Inl e
         | Inr output_id \<Rightarrow> Inr (output_id, st)))"

subsection \<open>Output edgesets and the squash buffer\<close>

definition record_edgeset :: "simplifier \<Rightarrow> rat \<Rightarrow> rat \<Rightarrow> nat \<Rightarrow> nat list \<Rightarrow> simplifier" where
  "record_edgeset st l r p c =
     (let sorted_children = sort c in
      case last_edgeset st of
        None \<Rightarrow> st\<lparr>last_edgeset := Some (l, r, p, sorted_children)\<rparr>
      | Some (last_left, last_right, last_parent, last_children) \<Rightarrow>
          if last_parent = p \<and> last_children = sorted_children \<and> last_right = l
          then st\<lparr>last_edgeset := Some (last_left, r, p, sorted_children)\<rparr>
          else st\<lparr>edgeset_table := edgeset_table st @
                       [(last_left, last_right, last_parent, last_children)],
                    last_edgeset := Some (l, r, p, sorted_children)\<rparr>)"

subsection \<open>Sites and mutations\<close>

text \<open>One pass of the innermost body of \<open>record_mutations\<close>. When the position is not a
  key of \<open>self.sites\<close> the source builds a fresh \<open>Site\<close>, appends the mutation to it and
  drops it: no statement stores it in \<open>self.sites\<close>. When the position is a key, the
  append mutates the stored site.\<close>

definition record_mutation :: "nat \<Rightarrow> nat \<Rightarrow> site \<Rightarrow> mutation \<Rightarrow> simplifier \<Rightarrow> simplifier" where
  "record_mutation input_id output_id s mu st =
     (if mnode mu = input_id then
        (let new_mutation = \<lparr>mnode = output_id, derived_state = derived_state mu\<rparr> in
         case map_of (sites st) (position s) of
           None \<Rightarrow>
             st\<lparr>num_output_mutations := num_output_mutations st + 1,
                num_output_sites := num_output_sites st + 1\<rparr>
         | Some new_site \<Rightarrow>
             st\<lparr>sites := AList.update (position s)
                            (new_site\<lparr>mutations := mutations new_site @ [new_mutation]\<rparr>)
                            (sites st),
                num_output_mutations := num_output_mutations st + 1\<rparr>)
      else st)"

definition record_mutations_site :: "nat \<Rightarrow> rat \<Rightarrow> rat \<Rightarrow> nat \<Rightarrow> site \<Rightarrow> simplifier \<Rightarrow> simplifier" where
  "record_mutations_site input_id l r output_id s st =
     (if position s \<ge> l \<and> position s < r
      then fold (record_mutation input_id output_id s) (mutations s) st
      else st)"

definition record_mutations :: "simplifier \<Rightarrow> nat \<Rightarrow> rat \<Rightarrow> rat \<Rightarrow> nat \<Rightarrow> simplifier" where
  "record_mutations st input_id l r output_id =
     fold (record_mutations_site input_id l r output_id) (ts_sites (ts st)) st"

text \<open>Modelled from the spec: \<open>TreeSequence.allele_of_this_individual\<close> is missing. The
  source calls it under the comment \<open>DO THIS SOMEHOW\<close>, and the spec records it as not
  implemented; looking the attribute up raises \<open>AttributeError\<close> before anything is
  assigned, so the first site that passes the test ends the call.\<close>

fun update_ancestral_state_sites :: "simplifier \<Rightarrow> rat \<Rightarrow> rat \<Rightarrow> site list \<Rightarrow> py_error + simplifier" where
  "update_ancestral_state_sites st l r [] = Inr st"
| "update_ancestral_state_sites st l r (s # ss) =
     (if map_of (sites st) (position s) \<noteq> None \<and> position s \<ge> l \<and> position s < r
      then Inl AttributeError
      else update_ancestral_state_sites st l r ss)"

definition update_ancestral_state :: "simplifier \<Rightarrow> nat \<Rightarrow> rat \<Rightarrow> rat \<Rightarrow> py_error + simplifier" where
  "update_ancestral_state st input_id l r =
     update_ancestral_state_sites st l r (ts_sites (ts st))"

subsection \<open>The heap of chain heads\<close>

text \<open>\<open>H\<close> is a \<open>heapq\<close> of tuples \<open>(x.left, x)\<close>. Python compares the tuples by key and,
  on equal keys, by \<open>Segment.__lt__\<close>, which compares \<open>(left, right, self.node)\<close> with
  \<open>(other.left, other.right, self.node)\<close>, that is by left and right only. The library
  heap is modelled by what it guarantees: \<open>H[0]\<close> is a least entry and \<open>heappop\<close> removes
  it. The list is kept in the order of the comparison, so \<open>H[0]\<close> is its head; a new
  entry goes behind the entries it is not less than.\<close>

definition entry_lt :: "heap_entry \<Rightarrow> heap_entry \<Rightarrow> bool" where
  "entry_lt a b =
     (fst a < fst b \<or>
      (fst a = fst b \<and>
        (left (fst (snd a)) < left (fst (snd b)) \<or>
         (left (fst (snd a)) = left (fst (snd b)) \<and>
          right (fst (snd a)) < right (fst (snd b))))))"

fun heappush :: "heap_entry list \<Rightarrow> heap_entry \<Rightarrow> heap_entry list" where
  "heappush [] e = [e]"
| "heappush (h # hs) e = (if entry_lt e h then e # h # hs else h # heappush hs e)"

subsection \<open>remove\_ancestry\<close>

text \<open>The first loop over the chain of a child: \<open>ys\<close> holds the segments passed so far
  (its last element is \<open>y\<close>, and \<open>y is None\<close> is \<open>ys = []\<close>), the list argument is the
  chain from \<open>x\<close> on. At a left overlap \<open>y\<close> is cut at \<open>edgeset.left\<close> and unlinked, and
  \<open>x\<close> becomes a new segment from \<open>edgeset.left\<close> linked to the rest; its left end is
  \<open>edgeset.left\<close>, so the loop test fails next and the loop is left. The flag tells
  whether that cut happened.\<close>

fun remove_ancestry_left ::
  "simplifier \<Rightarrow> rat \<Rightarrow> segment list \<Rightarrow> segment list \<Rightarrow>
     segment list \<times> segment list \<times> bool \<times> simplifier" where
  "remove_ancestry_left st el ys [] = (ys, [], False, st)"
| "remove_ancestry_left st el ys (x # nxt) =
     (if left x < el then
        (if right x > el then
           (let (x', st1) = alloc_segment st el (right x) (node x)
            in (ys @ [x\<lparr>right := el\<rparr>], x' # nxt, True, st1))
         else remove_ancestry_left st el (ys @ [x]) nxt)
      else (ys, x # nxt, False, st))"

text \<open>The second loop: \<open>w\<close> is the chain sent to the heap so far (\<open>w is None\<close> is
  \<open>w = []\<close>); the result holds the chain from the final \<open>x\<close> on.\<close>

fun remove_ancestry_inside ::
  "simplifier \<Rightarrow> rat \<Rightarrow> segment list \<Rightarrow> segment list \<Rightarrow>
     segment list \<times> segment list \<times> simplifier" where
  "remove_ancestry_inside st er w [] = (w, [], st)"
| "remove_ancestry_inside st er w (x # nxt) =
     (if left x < er then
        (let out_right = min er (right x);
             (next_w, st1) = alloc_segment st (left x) out_right (node x);
             w' = w @ [next_w]
         in if right x \<le> out_right
            then remove_ancestry_inside (free_segment st1 x) er w' nxt
            else (w', x\<lparr>left := er\<rparr> # nxt, st1))
      else (w, x # nxt, st))"

text \<open>One child of one edgeset. The head of \<open>w\<close> is pushed when it is allocated and the
  later segments are linked behind it in place; nothing else touches the heap meanwhile,
  so the entry is pushed here with its whole chain. In the wrap-up, \<open>y.next = x\<close> makes
  the chain of \<open>A[child]\<close> the passed segments followed by the rest when \<open>y\<close> exists;
  otherwise the entry is replaced or deleted. When nothing was sent to the heap but a cut
  happened, the chain of \<open>A[child]\<close> ends at the unlinked \<open>y\<close>.\<close>

definition remove_ancestry_child ::
  "edgeset \<Rightarrow> nat \<Rightarrow> simplifier \<times> heap_entry list \<Rightarrow> simplifier \<times> heap_entry list" where
  "remove_ancestry_child e child acc =
     (case acc of (st, H) \<Rightarrow>
      (case map_of (A st) child of
         None \<Rightarrow> (st, H)
       | Some chain \<Rightarrow>
           (case remove_ancestry_left st (eleft e) [] chain of (ys, xs, was_cut, st1) \<Rightarrow>
            (case remove_ancestry_inside st1 (eright e) [] xs of (w, xs', st2) \<Rightarrow>
             (case w of
                [] \<Rightarrow> (if was_cut then st2\<lparr>A := AList.update child ys (A st2)\<rparr> else st2, H)
              | w0 # wn \<Rightarrow>
                  (st2\<lparr>A := (if ys = [] \<and> xs' = [] then AList.delete child (A st2)
                              else AList.update child (ys @ xs') (A st2))\<rparr>,
                   heappush H (left w0, w0, wn)))))))"

definition remove_ancestry :: "simplifier \<Rightarrow> edgeset list \<Rightarrow> simplifier \<times> heap_entry list" where
  "remove_ancestry st es =
     fold (\<lambda>e acc. fold (remove_ancestry_child e) (children e) acc) es (st, [])"

subsection \<open>The overlap counts\<close>

text \<open>\<open>S\<close> is a \<open>bintrees.AVLTree\<close>: \<open>S[k]\<close> and \<open>floor_key\<close> raise \<open>KeyError\<close> when there is
  no such key, \<open>succ_key(k)\<close> raises it when \<open>k\<close> is not a key or is the greatest one.\<close>

definition S_get :: "(rat \<times> int) list \<Rightarrow> rat \<Rightarrow> py_error + int" where
  "S_get sm k = (case map_of sm k of None \<Rightarrow> Inl KeyError | Some v \<Rightarrow> Inr v)"

definition floor_key :: "(rat \<times> int) list \<Rightarrow> rat \<Rightarrow> py_error + rat" where
  "floor_key sm k =
     (let ks = filter (\<lambda>j. j \<le> k) (map fst sm)
      in if ks = [] then Inl KeyError else Inr (Max (set ks)))"

definition succ_key :: "(rat \<times> int) list \<Rightarrow> rat \<Rightarrow> py_error + rat" where
  "succ_key sm k =
     (let ks = filter (\<lambda>j. k < j) (map fst sm)
      in if map_of sm k = None \<or> ks = [] then Inl KeyError else Inr (Min (set ks)))"

text \<open>\<open>if k not in self.S: j = self.S.floor_key(k); self.S[k] = self.S[j]\<close>\<close>

definition S_ensure_key :: "(rat \<times> int) list \<Rightarrow> rat \<Rightarrow> py_error + (rat \<times> int) list" where
  "S_ensure_key sm k =
     (if map_of sm k = None then
        (case floor_key sm k of
           Inl e \<Rightarrow> Inl e
         | Inr j \<Rightarrow> (case S_get sm j of Inl e \<Rightarrow> Inl e | Inr v \<Rightarrow> Inr (AList.update k v sm)))
      else Inr sm)"

text \<open>The loop \<open>while r < r_max and self.S[r] != len(X)\<close> of the coalescence branch, with
  \<open>k\<close> for \<open>len(X)\<close>. Every round moves \<open>r\<close> to a greater key of \<open>S\<close>, and the keys do not
  change, so the loop ends.\<close>

function S_walk :: "(rat \<times> int) list \<Rightarrow> rat \<Rightarrow> rat \<Rightarrow> int \<Rightarrow> py_error + ((rat \<times> int) list \<times> rat)" where
  "S_walk sm r r_max k =
     (if r < r_max then
        (case S_get sm r of
           Inl e \<Rightarrow> Inl e
         | Inr v \<Rightarrow>
             if v \<noteq> k then
               (case succ_key (AList.update r (v - (k - 1)) sm) r of
                  Inl e \<Rightarrow> Inl e
                | Inr r' \<Rightarrow> S_walk (AList.update r (v - (k - 1)) sm) r' r_max k)
             else Inr (sm, r))
      else Inr (sm, r))"
  by pat_completeness auto
termination
proof (relation "measure (\<lambda>(sm, r, r_max, k). length (filter (\<lambda>j. r < j) (map fst sm)))")
  show "wf (measure (\<lambda>(sm, r, r_max, k). length (filter (\<lambda>j. r < j) (map fst sm))))"
    by simp
next
  fix sm :: "(rat \<times> int) list" and r r_max :: rat and k v :: int and r' :: rat
  assume get: "S_get sm r = Inr v"
    and succ: "succ_key (AList.update r (v - (k - 1)) sm) r = Inr r'"
  from get have "r \<in> fst ` set sm"
    by (auto simp: S_get_def split: option.splits dest: map_of_SomeD intro: rev_image_eqI)
  then have keys: "map fst (AList.update r (v - (k - 1)) sm) = map fst sm"
    by (simp add: update_keys)
  let ?ks = "filter (\<lambda>j. r < j) (map fst sm)"
  from succ keys have ne: "?ks \<noteq> []" and r': "r' = Min (set ?ks)"
    by (auto simp: succ_key_def Let_def split: if_splits)
  from ne have "set ?ks \<noteq> {}"
    unfolding set_empty .
  then have "r' \<in> set ?ks"
    unfolding r' by (rule Min_in [OF finite_set])
  then have mem: "r' \<in> set ?ks" and nless: "\<not> r' < r'" and gt: "r < r'"
    by auto
  have "filter (\<lambda>j. r' < j) (map fst sm) = filter (\<lambda>j. r' < j) ?ks"
    using gt by (auto intro!: filter_cong)
  moreover have "length (filter (\<lambda>j. r' < j) ?ks) < length ?ks"
    using mem nless by (rule length_filter_less)
  ultimately have "length (filter (\<lambda>j. r' < j) (map fst (AList.update r (v - (k - 1)) sm)))
      < length ?ks"
    by (simp only: keys)
  then show "((AList.update r (v - (k - 1)) sm, r', r_max, k), (sm, r, r_max, k))
      \<in> measure (\<lambda>(sm, r, r_max, k). length (filter (\<lambda>j. r < j) (map fst sm)))"
    by simp
qed

declare S_walk.simps [simp del]

subsection \<open>merge\_labeled\_ancestors\<close>

text \<open>\<open>while len(H) > 0 and H[0][0] == l: x = heappop(H)[1]; X.append(x); r_max = min(r_max, x.right)\<close>.
  An element of \<open>X\<close> is a segment with the chain behind it.\<close>

fun drain ::
  "rat \<Rightarrow> heap_entry list \<Rightarrow> (segment \<times> segment list) list \<Rightarrow> rat \<Rightarrow>
     heap_entry list \<times> (segment \<times> segment list) list \<times> rat" where
  "drain l [] X r_max = ([], X, r_max)"
| "drain l (h # H) X r_max =
     (if fst h = l then drain l H (X @ [snd h]) (min r_max (right (fst (snd h))))
      else (h # H, X, r_max))"

text \<open>The branch \<open>len(X) == 1\<close>: the result is \<open>alpha\<close>, the state and the heap.\<close>

definition merge_singleton ::
  "simplifier \<Rightarrow> heap_entry list \<Rightarrow> segment \<times> segment list \<Rightarrow>
     segment \<times> simplifier \<times> heap_entry list" where
  "merge_singleton st H xn =
     (case xn of (x, nxt) \<Rightarrow>
      if H \<noteq> [] \<and> fst (hd H) < right x then
        (let (alpha, st1) = alloc_segment st (left x) (fst (hd H)) (node x)
         in (alpha, st1, heappush H (fst (hd H), x\<lparr>left := fst (hd H)\<rparr>, nxt)))
      else
        (x, st, case nxt of [] \<Rightarrow> H | y # ynxt \<Rightarrow> heappush H (left y, y, ynxt)))"

text \<open>The right end \<open>r\<close> of a coalesced interval, with \<open>k\<close> for \<open>len(X)\<close>: the result is
  \<open>r\<close>, \<open>alpha\<close> (allocated in the second branch only) and the state.\<close>

definition merge_right_endpoint ::
  "simplifier \<Rightarrow> nat \<Rightarrow> rat \<Rightarrow> rat \<Rightarrow> nat \<Rightarrow> nat \<Rightarrow>
     py_error + (rat \<times> segment option \<times> simplifier)" where
  "merge_right_endpoint st input_id l r_max k u =
     (case S_get (S st) l of
        Inl e \<Rightarrow> Inl e
      | Inr v \<Rightarrow>
          if v = int k then
            (let st1 = st\<lparr>S := AList.update l 0 (S st)\<rparr> in
             case succ_key (S st1) l of
               Inl e \<Rightarrow> Inl e
             | Inr r \<Rightarrow>
                 (case update_ancestral_state st1 input_id l r of
                    Inl e \<Rightarrow> Inl e
                  | Inr st2 \<Rightarrow> Inr (r, None, st2)))
          else
            (case S_walk (S st) l r_max (int k) of
               Inl e \<Rightarrow> Inl e
             | Inr (sm, r) \<Rightarrow>
                 (let (alpha, st1) = alloc_segment (st\<lparr>S := sm\<rparr>) l r u
                  in Inr (r, Some alpha, st1))))"

text \<open>The body of \<open>for x in X\<close>; \<open>cs\<close> is the list \<open>children\<close>. The source tests
  \<open>x.node is not u\<close>, the identity of two integers, read here as their inequality.\<close>

definition merge_overlap_x ::
  "rat \<Rightarrow> nat \<Rightarrow> segment \<times> segment list \<Rightarrow> simplifier \<times> heap_entry list \<times> nat list \<Rightarrow>
     simplifier \<times> heap_entry list \<times> nat list" where
  "merge_overlap_x r u xn acc =
     (case xn of (x, nxt) \<Rightarrow>
      case acc of (st, H, cs) \<Rightarrow>
        (let cs' = (if node x \<noteq> u then cs @ [node x] else cs) in
         if right x = r then
           (let st1 = free_segment st x in
            case nxt of
              [] \<Rightarrow> (st1, H, cs')
            | y # ynxt \<Rightarrow> (st1, heappush H (left y, y, ynxt), cs'))
         else if right x > r then (st, heappush H (r, x\<lparr>left := r\<rparr>, nxt), cs')
         else (st, H, cs')))"


text \<open>\<open>if not coalescence: coalescence = True; u = self.check_or_record_node(input_id)\<close>:
  the value of \<open>u\<close> afterwards, and the state.\<close>

definition merge_output_node ::
  "simplifier \<Rightarrow> nat \<Rightarrow> bool \<Rightarrow> nat option \<Rightarrow> py_error + (nat option \<times> simplifier)" where
  "merge_output_node st input_id coalescence u =
     (if \<not> coalescence then
        (case check_or_record_node st input_id of
           Inl e \<Rightarrow> Inl e
         | Inr (v, st') \<Rightarrow> Inr (Some v, st'))
      else Inr (u, st))"

text \<open>The branch \<open>len(X) \<noteq> 1\<close>: the result is \<open>alpha\<close>, the state, the heap and the new
  values of \<open>coalescence\<close> and \<open>u\<close>.\<close>

definition merge_overlap ::
  "nat \<Rightarrow> rat \<Rightarrow> rat \<Rightarrow> (segment \<times> segment list) list \<Rightarrow>
     simplifier \<Rightarrow> heap_entry list \<Rightarrow> bool \<Rightarrow> nat option \<Rightarrow>
     py_error + (segment option \<times> simplifier \<times> heap_entry list \<times> bool \<times> nat option)" where
  "merge_overlap input_id l r_max X st H coalescence u =
     (case merge_output_node st input_id coalescence u of
        Inl e \<Rightarrow> Inl e
      | Inr (None, st1) \<Rightarrow> Inl AssertionError
      | Inr (Some uv, st1) \<Rightarrow>
          (case S_ensure_key (S st1) l of
             Inl e \<Rightarrow> Inl e
           | Inr sm1 \<Rightarrow>
               (case S_ensure_key sm1 r_max of
                  Inl e \<Rightarrow> Inl e
                | Inr sm2 \<Rightarrow>
                    (case merge_right_endpoint (st1\<lparr>S := sm2\<rparr>) input_id l r_max (length X) uv of
                       Inl e \<Rightarrow> Inl e
                     | Inr (r, alpha, st2) \<Rightarrow>
                         (case fold (merge_overlap_x r uv) X (st2, H, []) of
                            (st3, H', cs) \<Rightarrow>
                              Inr (alpha, record_edgeset st3 l r uv cs, H', True, Some uv))))))"

text \<open>The loop tail. \<open>zc\<close> is the chain built for \<open>input_id\<close> so far and \<open>z\<close> its last
  segment (\<open>z is None\<close> is \<open>zc = []\<close>). \<open>A[input_id] = alpha\<close> starts the chain and
  \<open>z.next = alpha\<close> extends it in place, so \<open>A[input_id]\<close> heads \<open>zc\<close> with \<open>alpha\<close>
  appended in both cases.\<close>

definition merge_tail ::
  "nat \<Rightarrow> segment option \<Rightarrow> segment list \<Rightarrow> simplifier \<Rightarrow> segment list \<times> simplifier" where
  "merge_tail input_id alpha zc st =
     (case alpha of
        None \<Rightarrow> (zc, st)
      | Some a \<Rightarrow>
          (let zc' = zc @ [a];
               st1 = st\<lparr>A := AList.update input_id zc' (A st)\<rparr>
           in (zc', record_mutations st1 input_id (left a) (right a) (node a))))"

text \<open>One round of \<open>while len(H) > 0\<close>, entered with a non-empty heap. The loop state is
  the simplifier, the heap, \<open>coalescence\<close>, \<open>u\<close> and the chain \<open>zc\<close>.\<close>

type_synonym merge_state = "simplifier \<times> heap_entry list \<times> bool \<times> nat option \<times> segment list"

definition merge_iteration :: "nat \<Rightarrow> merge_state \<Rightarrow> py_error + merge_state" where
  "merge_iteration input_id ms =
     (case ms of (st, H, coalescence, u, zc) \<Rightarrow>
      (let l = fst (hd H) in
       case drain l H [] (self_m st + 1) of (H1, X, r_max0) \<Rightarrow>
         (let r_max = (if H1 \<noteq> [] then min r_max0 (fst (hd H1)) else r_max0) in
          if length X = 1 then
            (case merge_singleton st H1 (hd X) of (alpha, st1, H2) \<Rightarrow>
               (case merge_tail input_id (Some alpha) zc st1 of (zc', st2) \<Rightarrow>
                  Inr (st2, H2, coalescence, u, zc')))
          else
            (case merge_overlap input_id l r_max X st H1 coalescence u of
               Inl e \<Rightarrow> Inl e
             | Inr (alpha, st1, H2, coalescence', u') \<Rightarrow>
                 (case merge_tail input_id alpha zc st1 of (zc', st2) \<Rightarrow>
                    Inr (st2, H2, coalescence', u', zc'))))))"

text \<open>The loop itself may run forever on a state no run reaches (a heap entry whose
  left end lies beyond \<open>m + 1\<close> is pushed back unchanged), so it takes fuel: \<open>None\<close> is
  "fuel used up", \<open>Some\<close> carries the loop's own outcome.\<close>

fun merge_loop :: "nat \<Rightarrow> nat \<Rightarrow> merge_state \<Rightarrow> (py_error + simplifier) option" where
  "merge_loop 0 input_id ms = (if fst (snd ms) = [] then Some (Inr (fst ms)) else None)"
| "merge_loop (Suc fuel) input_id ms =
     (if fst (snd ms) = [] then Some (Inr (fst ms))
      else (case merge_iteration input_id ms of
              Inl e \<Rightarrow> Some (Inl e)
            | Inr ms' \<Rightarrow> merge_loop fuel input_id ms'))"

definition merge_labeled_ancestors ::
  "nat \<Rightarrow> simplifier \<Rightarrow> heap_entry list \<Rightarrow> nat \<Rightarrow> (py_error + simplifier) option" where
  "merge_labeled_ancestors fuel st H input_id = merge_loop fuel input_id (st, H, False, None, [])"

subsection \<open>The constructor\<close>

text \<open>The body of \<open>for j, sample_id in enumerate(sample)\<close>.\<close>

definition init_sample :: "nat \<times> nat \<Rightarrow> simplifier \<Rightarrow> py_error + simplifier" where
  "init_sample js st =
     (case js of (j, sample_id) \<Rightarrow>
      (let (x, st1) = alloc_segment st 0 (self_m st) j;
           st2 = st1\<lparr>A := AList.update sample_id [x] (A st1)\<rparr>
       in case record_sample_node st2 sample_id of
            Inl e \<Rightarrow> Inl e
          | Inr st3 \<Rightarrow>
              Inr (record_mutations st3 sample_id 0 (self_m st3) (num_output_nodes st3 - 1))))"

fun init_samples :: "(nat \<times> nat) list \<Rightarrow> simplifier \<Rightarrow> py_error + simplifier" where
  "init_samples [] st = Inr st"
| "init_samples (js # rest) st =
     (case init_sample js st of Inl e \<Rightarrow> Inl e | Inr st1 \<Rightarrow> init_samples rest st1)"

text \<open>The attributes as \<open>__init__\<close> sets them before its loop (\<open>S\<close> is created after it).\<close>

definition new_simplifier :: "tree_sequence \<Rightarrow> nat list \<Rightarrow> simplifier" where
  "new_simplifier t smp =
     \<lparr>ts = t, sample = smp, self_n = length smp, self_m = sequence_length t,
      A = [], node_table = [], edgeset_table = [], sites = [],
      last_edgeset = None, num_output_nodes = 0, num_output_mutations = 0,
      num_output_sites = 0, num_used_segments = 0, S = []\<rparr>"

definition Simplifier_init :: "tree_sequence \<Rightarrow> nat list \<Rightarrow> py_error + simplifier" where
  "Simplifier_init t smp =
     (case init_samples (enumerate 0 smp) (new_simplifier t smp) of
        Inl e \<Rightarrow> Inl e
      | Inr st \<Rightarrow>
          Inr (st\<lparr>S := AList.update (self_m st) (- 1) (AList.update 0 (int (self_n st)) [])\<rparr>))"

subsection \<open>simplify\<close>

definition the_parents :: "tree_sequence \<Rightarrow> (rat \<times> nat) list" where
  "the_parents t = sort (map (\<lambda>(input_id, nd). (time nd, input_id)) (enumerate 0 (ts_nodes t)))"

text \<open>The main loop over the sorted parents; \<open>break\<close> ends it when \<open>A\<close> is empty.\<close>

fun simplify_loop :: "nat \<Rightarrow> simplifier \<Rightarrow> (rat \<times> nat) list \<Rightarrow> (py_error + simplifier) option" where
  "simplify_loop fuel st [] = Some (Inr st)"
| "simplify_loop fuel st (p # ps) =
     (if A st = [] then Some (Inr st)
      else (let es = filter (\<lambda>x. parent x = snd p) (ts_edgesets (ts st)) in
            if length es > 0 then
              (case remove_ancestry st es of (st1, H) \<Rightarrow>
                 (case merge_labeled_ancestors fuel st1 H (snd p) of
                    None \<Rightarrow> None
                  | Some (Inl e) \<Rightarrow> Some (Inl e)
                  | Some (Inr st2) \<Rightarrow> simplify_loop fuel st2 ps))
            else simplify_loop fuel st ps))"

text \<open>The tables handed to \<open>msprime.load_tables\<close>.\<close>

record tables =
  out_nodes :: "node_row list"
  out_edgesets :: "edgeset_row list"
  out_sites :: "(rat \<times> string) list"
  out_mutations :: "(nat \<times> nat \<times> string) list"

text \<open>The loop \<open>for k, pos in enumerate(sorted(self.sites.keys()))\<close>. Its body evaluates
  \<open>self.ancestral_state\<close> for the first \<open>add_row\<close>; a \<open>Simplifier\<close> has no such attribute,
  so the first round raises \<open>AttributeError\<close> and no row is added.\<close>

fun emit_sites ::
  "simplifier \<Rightarrow> (nat \<times> rat) list \<Rightarrow> (rat \<times> string) list \<times> (nat \<times> nat \<times> string) list \<Rightarrow>
     py_error + ((rat \<times> string) list \<times> (nat \<times> nat \<times> string) list)" where
  "emit_sites st [] tabs = Inr tabs"
| "emit_sites st (kp # rest) tabs =
     (case map_of (sites st) (snd kp) of
        None \<Rightarrow> Inl KeyError
      | Some s \<Rightarrow> Inl AttributeError)"

text \<open>What follows the main loop: unpacking \<open>self.last_edgeset\<close> raises \<open>TypeError\<close> when
  it is \<open>None\<close>.\<close>

definition simplify_finish :: "simplifier \<Rightarrow> py_error + (simplifier \<times> tables)" where
  "simplify_finish st =
     (case last_edgeset st of
        None \<Rightarrow> Inl TypeError
      | Some row \<Rightarrow>
          (let st1 = st\<lparr>edgeset_table := edgeset_table st @ [row]\<rparr> in
           case emit_sites st1 (enumerate 0 (sort (map fst (sites st1)))) ([], []) of
             Inl e \<Rightarrow> Inl e
           | Inr (site_table, mutation_table) \<Rightarrow>
               Inr (st1, \<lparr>out_nodes = node_table st1, out_edgesets = edgeset_table st1,
                          out_sites = site_table, out_mutations = mutation_table\<rparr>)))"

definition simplify :: "nat \<Rightarrow> simplifier \<Rightarrow> (py_error + (simplifier \<times> tables)) option" where
  "simplify fuel st =
     (case simplify_loop fuel st (the_parents (ts st)) of
        None \<Rightarrow> None
      | Some (Inl e) \<Rightarrow> Some (Inl e)
      | Some (Inr st1) \<Rightarrow> Some (simplify_finish st1))"

text \<open>\<open>Simplifier(ts, sample).simplify()\<close>, as \<open>run_simplify\<close> calls it on the tree sequence
  it has loaded and the sample it has drawn.\<close>

definition run_simplify ::
  "nat \<Rightarrow> tree_sequence \<Rightarrow> nat list \<Rightarrow> (py_error + (simplifier \<times> tables)) option" where
  "run_simplify fuel t smp =
     (case Simplifier_init t smp of
        Inl e \<Rightarrow> Some (Inl e)
      | Inr st \<Rightarrow> simplify fuel st)"

subsection \<open>Sorted chains\<close>

text \<open>A chain is in order when every segment has \<open>left < right\<close> and every segment ends
  no later than its successor begins. \<open>chains_sorted\<close> says so of every chain held by \<open>A\<close>
  and by a heap.\<close>

definition chain_ok :: "segment list \<Rightarrow> bool" where
  "chain_ok c = ((\<forall>s\<in>set c. left s < right s) \<and> successively (\<lambda>a b. right a \<le> left b) c)"

definition chains_sorted :: "simplifier \<Rightarrow> heap_entry list \<Rightarrow> bool" where
  "chains_sorted st H =
     ((\<forall>kc\<in>set (A st). chain_ok (snd kc)) \<and>
      (\<forall>e\<in>set H. chain_ok (fst (snd e) # snd (snd e))))"

text \<open>The invariant that carries the order through the sweep also bounds every segment
  by the sequence length, keeps each heap entry under the key \<open>x.left\<close> with the heap in
  key order, and keeps the chain built by \<open>merge_labeled_ancestors\<close> to the left of every
  heap entry.\<close>

definition chain_within :: "rat \<Rightarrow> segment list \<Rightarrow> bool" where
  "chain_within b c = (\<forall>s\<in>set c. right s \<le> b)"

definition ancestry_inv :: "simplifier \<Rightarrow> bool" where
  "ancestry_inv st =
     (\<forall>kc\<in>set (A st). chain_ok (snd kc) \<and> chain_within (self_m st) (snd kc))"

definition heap_inv :: "rat \<Rightarrow> heap_entry list \<Rightarrow> bool" where
  "heap_inv b H =
     (sorted_wrt (\<lambda>e1 e2. fst e1 \<le> fst e2) H \<and>
      (\<forall>e\<in>set H. fst e = left (fst (snd e)) \<and>
         chain_ok (fst (snd e) # snd (snd e)) \<and>
         chain_within b (fst (snd e) # snd (snd e))))"

definition merge_inv :: "merge_state \<Rightarrow> bool" where
  "merge_inv ms =
     (case ms of (st, H, co, u, zc) \<Rightarrow>
        ancestry_inv st \<and> heap_inv (self_m st) H \<and>
        chain_ok zc \<and> chain_within (self_m st) zc \<and>
        (\<forall>a\<in>set zc. \<forall>e\<in>set H. right a \<le> fst e))"


subsection \<open>Squashed edgeset tables\<close>

text \<open>Two rows \<open>(L1, R1, P, C)\<close> and \<open>(L2, R2, P, C)\<close> can be squashed when they agree on parent
  and children and \<open>R1 = L2\<close>; a table is completely squashed when no two adjacent rows can.
  \<open>pending_rows\<close> is the table followed by the pending buffer, and \<open>squash_inv\<close> says that
  this list is completely squashed and that the table is empty while nothing is pending.\<close>

definition squashable :: "edgeset_row \<Rightarrow> edgeset_row \<Rightarrow> bool" where
  "squashable a b =
     (fst (snd (snd a)) = fst (snd (snd b)) \<and> snd (snd (snd a)) = snd (snd (snd b)) \<and>
      fst (snd a) = fst b)"

definition squash_complete :: "edgeset_row list \<Rightarrow> bool" where
  "squash_complete rows = successively (\<lambda>a b. \<not> squashable a b) rows"

definition pending_rows :: "simplifier \<Rightarrow> edgeset_row list" where
  "pending_rows st =
     edgeset_table st @ (case last_edgeset st of None \<Rightarrow> [] | Some row \<Rightarrow> [row])"

definition squash_inv :: "simplifier \<Rightarrow> bool" where
  "squash_inv st =
     (squash_complete (pending_rows st) \<and> (last_edgeset st = None \<longrightarrow> edgeset_table st = []))"


subsection \<open>Example inputs\<close>

text \<open>Two sampled leaves 0 and 1 at time 0 under node 2 at time 1, on a sequence of
  length 10.\<close>

definition leaf_row :: node_row where
  "leaf_row = \<lparr>flags = 1, time = 0, population = 0\<rparr>"

definition root_row :: node_row where
  "root_row = \<lparr>flags = 0, time = 1, population = 0\<rparr>"

definition ts_whole :: tree_sequence where
  "ts_whole =
     \<lparr>ts_nodes = [leaf_row, leaf_row, root_row],
      ts_edgesets = [\<lparr>eleft = 0, eright = 10, parent = 2, children = [0, 1]\<rparr>],
      ts_sites = [], sequence_length = 10\<rparr>"

text \<open>The same nodes, the leaves joined under node 2 on \<open>[0, 5)\<close> only.\<close>

definition ts_half :: tree_sequence where
  "ts_half =
     \<lparr>ts_nodes = [leaf_row, leaf_row, root_row],
      ts_edgesets = [\<lparr>eleft = 0, eright = 5, parent = 2, children = [0, 1]\<rparr>],
      ts_sites = [], sequence_length = 10\<rparr>"

text \<open>\<open>ts_whole\<close> with one site at position 3 that carries a mutation on leaf 0.\<close>

definition site_three :: site where
  "site_three =
     \<lparr>position = 3, ancestral_state = ''0'',
      mutations = [\<lparr>mnode = 0, derived_state = ''1''\<rparr>]\<rparr>"

definition ts_mutated :: tree_sequence where
  "ts_mutated = ts_whole\<lparr>ts_sites := [site_three]\<rparr>"

text \<open>\<open>ts_whole\<close> with the sample bit set in the flags of node 2 as well.\<close>

definition ts_flagged :: tree_sequence where
  "ts_flagged = ts_whole\<lparr>ts_nodes := [leaf_row, leaf_row, root_row\<lparr>flags := 1\<rparr>]\<rparr>"

text \<open>A simplifier that holds an output site at position 3 and a pending edgeset.\<close>

definition st_with_site :: simplifier where
  "st_with_site =
     (new_simplifier ts_mutated [0, 1])
       \<lparr>sites := [(3, site_three)], last_edgeset := Some (0, 10, 2, [0, 1])\<rparr>"

text \<open>The simplifier built for \<open>ts_half\<close> and the sample list \<open>[0, 1]\<close>, and the state in
  which \<open>merge_labeled_ancestors\<close> starts for parent 2 (after \<open>remove_ancestry\<close>).\<close>

definition st_half :: simplifier where
  "st_half = projr (Simplifier_init ts_half [0, 1])"

definition ms_half :: merge_state where
  "ms_half =
     (fst (remove_ancestry st_half (ts_edgesets ts_half)),
      snd (remove_ancestry st_half (ts_edgesets ts_half)), False, None, [])"


text \<open>The leaves joined under node 2 by two edgesets, on \<open>[0, 5)\<close> and on \<open>[5, 10)\<close>.\<close>

definition ts_split :: tree_sequence where
  "ts_split =
     \<lparr>ts_nodes = [leaf_row, leaf_row, root_row],
      ts_edgesets = [\<lparr>eleft = 0, eright = 5, parent = 2, children = [0, 1]\<rparr>,
                     \<lparr>eleft = 5, eright = 10, parent = 2, children = [0, 1]\<rparr>],
      ts_sites = [], sequence_length = 10\<rparr>"


text \<open>Three sampled leaves; node 3 joins leaves 0 and 1, node 4 joins leaf 2 and node 3. The
  second definition is the state in which \<open>merge_labeled_ancestors\<close> starts for parent 3
  with the sample list \<open>[0, 1, 2]\<close>.\<close>

definition ts_three :: tree_sequence where
  "ts_three =
     \<lparr>ts_nodes = [leaf_row, leaf_row, leaf_row, root_row, root_row\<lparr>time := 2\<rparr>],
      ts_edgesets = [\<lparr>eleft = 0, eright = 10, parent = 3, children = [0, 1]\<rparr>,
                     \<lparr>eleft = 0, eright = 10, parent = 4, children = [2, 3]\<rparr>],
      ts_sites = [], sequence_length = 10\<rparr>"

definition ms_three :: merge_state where
  "ms_three =
     (fst (remove_ancestry (projr (Simplifier_init ts_three [0, 1, 2]))
        (filter (\<lambda>x. parent x = 3) (ts_edgesets ts_three))),
      snd (remove_ancestry (projr (Simplifier_init ts_three [0, 1, 2]))
        (filter (\<lambda>x. parent x = 3) (ts_edgesets ts_three))), False, None, [])"


section \<open>Properties\<close>

subsection \<open>What each operation leaves alone\<close>

lemma fold_frame:
  assumes "\<And>x s. g (f x s) = g s"
  shows "g (fold f xs s) = g s"
  by (induction xs arbitrary: s) (simp_all add: assms)

lemma alloc_segment_frame:
  "fst (alloc_segment st l r u) = \<lparr>left = l, right = r, node = u\<rparr>"
  "ts (snd (alloc_segment st l r u)) = ts st"
  "sample (snd (alloc_segment st l r u)) = sample st"
  "self_m (snd (alloc_segment st l r u)) = self_m st"
  "self_n (snd (alloc_segment st l r u)) = self_n st"
  "A (snd (alloc_segment st l r u)) = A st"
  "S (snd (alloc_segment st l r u)) = S st"
  "node_table (snd (alloc_segment st l r u)) = node_table st"
  "edgeset_table (snd (alloc_segment st l r u)) = edgeset_table st"
  "last_edgeset (snd (alloc_segment st l r u)) = last_edgeset st"
  "sites (snd (alloc_segment st l r u)) = sites st"
  by (simp_all add: alloc_segment_def)

lemma free_segment_frame:
  "ts (free_segment st x) = ts st"
  "sample (free_segment st x) = sample st"
  "self_m (free_segment st x) = self_m st"
  "A (free_segment st x) = A st"
  "S (free_segment st x) = S st"
  "node_table (free_segment st x) = node_table st"
  "edgeset_table (free_segment st x) = edgeset_table st"
  "last_edgeset (free_segment st x) = last_edgeset st"
  "sites (free_segment st x) = sites st"
  by (simp_all add: free_segment_def)

lemma record_mutation_frame:
  "ts (record_mutation i o' s mu st) = ts st"
  "sample (record_mutation i o' s mu st) = sample st"
  "self_m (record_mutation i o' s mu st) = self_m st"
  "self_n (record_mutation i o' s mu st) = self_n st"
  "A (record_mutation i o' s mu st) = A st"
  "S (record_mutation i o' s mu st) = S st"
  "node_table (record_mutation i o' s mu st) = node_table st"
  "edgeset_table (record_mutation i o' s mu st) = edgeset_table st"
  "last_edgeset (record_mutation i o' s mu st) = last_edgeset st"
  "num_used_segments (record_mutation i o' s mu st) = num_used_segments st"
  by (simp_all add: record_mutation_def Let_def split: option.splits)

lemma record_mutations_site_frame:
  "ts (record_mutations_site i l r o' s st) = ts st"
  "sample (record_mutations_site i l r o' s st) = sample st"
  "self_m (record_mutations_site i l r o' s st) = self_m st"
  "self_n (record_mutations_site i l r o' s st) = self_n st"
  "A (record_mutations_site i l r o' s st) = A st"
  "S (record_mutations_site i l r o' s st) = S st"
  "node_table (record_mutations_site i l r o' s st) = node_table st"
  "edgeset_table (record_mutations_site i l r o' s st) = edgeset_table st"
  "last_edgeset (record_mutations_site i l r o' s st) = last_edgeset st"
  "num_used_segments (record_mutations_site i l r o' s st) = num_used_segments st"
  by (simp_all add: record_mutations_site_def fold_frame record_mutation_frame)

lemma record_mutations_frame:
  "ts (record_mutations st i l r o') = ts st"
  "sample (record_mutations st i l r o') = sample st"
  "self_m (record_mutations st i l r o') = self_m st"
  "self_n (record_mutations st i l r o') = self_n st"
  "A (record_mutations st i l r o') = A st"
  "S (record_mutations st i l r o') = S st"
  "node_table (record_mutations st i l r o') = node_table st"
  "edgeset_table (record_mutations st i l r o') = edgeset_table st"
  "last_edgeset (record_mutations st i l r o') = last_edgeset st"
  "num_used_segments (record_mutations st i l r o') = num_used_segments st"
  by (simp_all add: record_mutations_def fold_frame record_mutations_site_frame)

lemma update_ancestral_state_sites_same:
  "update_ancestral_state_sites st l r ss = Inr st' \<Longrightarrow> st' = st"
  by (induction ss) (auto split: if_splits)

lemma update_ancestral_state_same:
  "update_ancestral_state st input_id l r = Inr st' \<Longrightarrow> st' = st"
  by (auto simp: update_ancestral_state_def dest: update_ancestral_state_sites_same)

lemma check_or_record_node_frame:
  assumes "check_or_record_node st input_id = Inr (v, st')"
  shows "ts st' = ts st" "sample st' = sample st" "self_m st' = self_m st" "A st' = A st"
    "S st' = S st" "edgeset_table st' = edgeset_table st" "last_edgeset st' = last_edgeset st"
    "sites st' = sites st" "num_used_segments st' = num_used_segments st"
  using assms
  by (auto simp: check_or_record_node_def Let_def split: if_splits sum.splits)

lemma record_sample_node_frame:
  assumes "record_sample_node st input_id = Inr st'"
  shows "ts st' = ts st" "sample st' = sample st" "self_m st' = self_m st" "A st' = A st"
    "S st' = S st" "edgeset_table st' = edgeset_table st" "last_edgeset st' = last_edgeset st"
    "sites st' = sites st" "num_used_segments st' = num_used_segments st" "self_n st' = self_n st"
    "node_table st' = node_table st @ [\<lparr>flags = flags (ts_nodes (ts st) ! input_id) AND NODE_IS_SAMPLE, 
        time = time (ts_nodes (ts st) ! input_id), population = population (ts_nodes (ts st) ! input_id)\<rparr>]"
  using assms
  by (auto simp: record_sample_node_def ts_node_def split: if_splits sum.splits)

lemma record_edgeset_frame:
  "ts (record_edgeset st l r p c) = ts st"
  "sample (record_edgeset st l r p c) = sample st"
  "self_m (record_edgeset st l r p c) = self_m st"
  "A (record_edgeset st l r p c) = A st"
  "S (record_edgeset st l r p c) = S st"
  "sites (record_edgeset st l r p c) = sites st"
  "node_table (record_edgeset st l r p c) = node_table st"
  "num_used_segments (record_edgeset st l r p c) = num_used_segments st"
  by (simp_all add: record_edgeset_def Let_def split: option.splits prod.splits)

subsection \<open>Sites and mutations\<close>

lemma record_mutation_keys:
  "map fst (sites (record_mutation input_id output_id s mu st)) = map fst (sites st)"
  by (auto simp: record_mutation_def Let_def update_keys map_of_eq_None_iff
      split: option.splits dest: map_of_SomeD intro: rev_image_eqI)

lemma fold_record_mutation_keys:
  "map fst (sites (fold (record_mutation input_id output_id s) mus st)) = map fst (sites st)"
  by (induction mus arbitrary: st) (simp_all add: record_mutation_keys)

lemma record_mutations_site_keys:
  "map fst (sites (record_mutations_site input_id l r output_id s st)) = map fst (sites st)"
  by (simp add: record_mutations_site_def fold_record_mutation_keys)

lemma fold_record_mutations_site_keys:
  "map fst (sites (fold (record_mutations_site input_id l r output_id) ss st)) = map fst (sites st)"
  by (induction ss arbitrary: st) (simp_all add: record_mutations_site_keys)

lemma record_mutations_keys:
  "map fst (sites (record_mutations st input_id l r output_id)) = map fst (sites st)"
  by (simp add: record_mutations_def fold_record_mutations_site_keys)

text \<open>
  Claim C2. After \<open>record_mutations(input_id, left, right, output_id)\<close>, the output sites
  map is to hold an entry at the position of every input mutation on \<open>input_id\<close> inside
  \<open>[left, right)\<close>, with the mutation appended. On the example, leaf 0 carries a mutation
  at position 3 and the call for it over \<open>[0, 10)\<close> leaves the sites map empty: only the
  two counters move. (By \<open>record_mutations_keys\<close> no call ever adds a key to the map.)
\<close>

theorem record_mutations_loses_new_site:
  "sites (record_mutations (new_simplifier ts_mutated [0, 1]) 0 0 10 0) = [] \<and>
   num_output_sites (record_mutations (new_simplifier ts_mutated [0, 1]) 0 0 10 0) = 1 \<and>
   num_output_mutations (record_mutations (new_simplifier ts_mutated [0, 1]) 0 0 10 0) = 1"
  by code_simp


subsection \<open>Output nodes\<close>

text \<open>
  Claim C6. For an \<open>input_id\<close> outside the sample list, \<open>check_or_record_node\<close> is to append
  a row whose flags are the input node's with the sample bit cleared. On the example node
  2 has flags 1 and is not in the sample list \<open>[0, 1]\<close>: the call returns output id 2 and
  the appended row has flags 1, where clearing the bit gives 0.
\<close>

theorem check_or_record_node_keeps_sample_bit:
  "(case Simplifier_init ts_flagged [0, 1] of
      Inl e \<Rightarrow> Inl e
    | Inr st \<Rightarrow>
        map_sum id (\<lambda>r. (fst r, map flags (node_table (snd r)))) (check_or_record_node st 2))
   = Inr (2, [1, 1, 1]) \<and>
   flags (ts_nodes ts_flagged ! 2) AND NOT NODE_IS_SAMPLE = 0"
  by code_simp

subsection \<open>The end of simplify\<close>


text \<open>
  Claim C1. When \<open>simplify\<close> returns, \<open>num_used_segments\<close> is to be zero. On \<open>ts_half\<close> with
  the sample list \<open>[0, 1]\<close> the call returns its tables and the counter is 2: the segments
  of the two leaves over \<open>[5, 10)\<close> are still in \<open>A\<close> and nothing frees them.
\<close>

theorem simplify_leaves_segments:
  "map_option (map_sum id (\<lambda>r. (num_used_segments (fst r), A (fst r), out_edgesets (snd r))))
     (run_simplify 2 ts_half [0, 1])
   = Some (Inr (2, [(0, [\<lparr>left = 5, right = 10, node = 0\<rparr>]),
                    (1, [\<lparr>left = 5, right = 10, node = 1\<rparr>])],
                [(0, 5, 2, [0, 1])]))"
  by code_simp

subsection \<open>The constructor\<close>

lemma init_sample_frame:
  assumes "init_sample js st = Inr st'"
  shows "ts st' = ts st" "sample st' = sample st" "self_m st' = self_m st" "self_n st' = self_n st"
    "edgeset_table st' = edgeset_table st" "last_edgeset st' = last_edgeset st"
    "length (node_table st') = Suc (length (node_table st))"
proof -
  obtain j sample_id where js: "js = (j, sample_id)"
    by (cases js)
  let ?st2 = "(snd (alloc_segment st 0 (self_m st) j))
      \<lparr>A := AList.update sample_id [fst (alloc_segment st 0 (self_m st) j)]
        (A (snd (alloc_segment st 0 (self_m st) j)))\<rparr>"
  from assms js obtain st3 where 3: "record_sample_node ?st2 sample_id = Inr st3"
    and st': "st' = record_mutations st3 sample_id 0 (self_m st3) (num_output_nodes st3 - 1)"
    by (auto simp: init_sample_def Let_def split: prod.splits sum.splits)
  note f = record_sample_node_frame [OF 3]
  show "ts st' = ts st" "sample st' = sample st" "self_m st' = self_m st" "self_n st' = self_n st"
    "edgeset_table st' = edgeset_table st" "last_edgeset st' = last_edgeset st"
    "length (node_table st') = Suc (length (node_table st))"
    by (simp_all add: st' record_mutations_frame f alloc_segment_frame)
qed

lemma init_sample_Inl: "init_sample js st = Inl e \<Longrightarrow> e = IndexError"
  by (auto simp: init_sample_def Let_def alloc_segment_def record_sample_node_def ts_node_def
      split: prod.splits sum.splits if_splits)

lemma init_sample_ok:
  "snd js < length (ts_nodes (ts st)) \<Longrightarrow> \<exists>st'. init_sample js st = Inr st'"
  by (auto simp: init_sample_def Let_def alloc_segment_def record_sample_node_def ts_node_def
      split: prod.splits sum.splits)

lemma init_sample_err:
  "length (ts_nodes (ts st)) \<le> snd js \<Longrightarrow> init_sample js st = Inl IndexError"
  by (auto simp: init_sample_def Let_def alloc_segment_def record_sample_node_def ts_node_def
      split: prod.splits sum.splits)

lemma init_samples_frame:
  "init_samples jss st = Inr st' \<Longrightarrow>
     ts st' = ts st \<and> sample st' = sample st \<and> self_m st' = self_m st \<and> self_n st' = self_n st \<and>
     edgeset_table st' = edgeset_table st \<and> last_edgeset st' = last_edgeset st \<and>
     length (node_table st') = length (node_table st) + length jss"
proof (induction jss arbitrary: st)
  case Nil
  then show ?case by simp
next
  case (Cons js jss)
  from Cons.prems obtain st1 where 1: "init_sample js st = Inr st1"
    and 2: "init_samples jss st1 = Inr st'"
    by (auto split: sum.splits)
  from Cons.IH [OF 2] init_sample_frame [OF 1] show ?case
    by simp
qed

lemma init_samples_ok:
  "\<forall>js\<in>set jss. snd js < length (ts_nodes (ts st)) \<Longrightarrow> \<exists>st'. init_samples jss st = Inr st'"
proof (induction jss arbitrary: st)
  case Nil
  then show ?case by simp
next
  case (Cons js jss)
  then obtain st1 where 1: "init_sample js st = Inr st1"
    using init_sample_ok [of js st] by auto
  with Cons.prems have "\<forall>js\<in>set jss. snd js < length (ts_nodes (ts st1))"
    by (simp add: init_sample_frame)
  from Cons.IH [OF this] 1 show ?case
    by auto
qed

lemma init_samples_err:
  "\<exists>js\<in>set jss. length (ts_nodes (ts st)) \<le> snd js \<Longrightarrow> init_samples jss st = Inl IndexError"
proof (induction jss arbitrary: st)
  case Nil
  then show ?case by simp
next
  case (Cons js jss)
  show ?case
  proof (cases "init_sample js st")
    case (Inl e)
    then have "e = IndexError"
      by (rule init_sample_Inl)
    with Inl show ?thesis by simp
  next
    case (Inr st1)
    then have lt: "snd js < length (ts_nodes (ts st))"
      using init_sample_err [of st js] by (cases "snd js < length (ts_nodes (ts st))") auto
    with Cons.prems have "\<exists>js\<in>set jss. length (ts_nodes (ts st1)) \<le> snd js"
      using init_sample_frame(1) [OF Inr] by auto
    from Cons.IH [OF this] Inr show ?thesis
      by simp
  qed
qed

lemma snd_enumerate_set: "snd ` set (enumerate k xs) = set xs"
  by (metis map_snd_enumerate set_map)

lemma Simplifier_init_frame:
  assumes "Simplifier_init t smp = Inr st"
  shows "ts st = t" "sample st = smp" "self_m st = sequence_length t"
    "edgeset_table st = []" "last_edgeset st = None" "length (node_table st) = length smp"
  using assms
  by (auto simp: Simplifier_init_def new_simplifier_def split: sum.splits dest!: init_samples_frame)


subsection \<open>The sample list and the squash buffer at the end\<close>

text \<open>Recording an edgeset fills the squash buffer, and no operation empties it: the
  buffer is \<open>None\<close> when the main loop ends exactly when no edgeset was recorded.\<close>

lemma record_edgeset_pending: "last_edgeset (record_edgeset st l r p c) \<noteq> None"
  by (simp add: record_edgeset_def Let_def split: option.splits prod.splits)

text \<open>
  Claim C10. When the main loop ends with the squash buffer still \<open>None\<close> (no edgeset
  was recorded), \<open>simplify\<close> does not return tables: unpacking the buffer raises
  \<open>TypeError\<close>. The example is the sample list \<open>[0]\<close> on \<open>ts_whole\<close>.
\<close>

theorem simplify_fails_without_edgeset:
  assumes "Simplifier_init t smp = Inr st"
    and "simplify_loop fuel st (the_parents t) = Some (Inr st1)"
    and "last_edgeset st1 = None"
  shows "run_simplify fuel t smp = Some (Inl TypeError)"
  using assms Simplifier_init_frame(1) [OF assms(1)]
  by (simp add: run_simplify_def simplify_def simplify_finish_def)

theorem simplify_fails_without_edgeset_witness:
  "last_edgeset (projr (the (simplify_loop 2 (projr (Simplifier_init ts_whole [0]))
      (the_parents ts_whole)))) = None \<and>
   run_simplify 2 ts_whole [0] = Some (Inl TypeError)"
proof -
  have 1: "Simplifier_init ts_whole [0] = Inr (projr (Simplifier_init ts_whole [0]))"
    by code_simp
  have 2: "simplify_loop 2 (projr (Simplifier_init ts_whole [0])) (the_parents ts_whole) =
      Some (Inr (projr (the (simplify_loop 2 (projr (Simplifier_init ts_whole [0]))
        (the_parents ts_whole)))))"
    by code_simp
  have 3: "last_edgeset (projr (the (simplify_loop 2 (projr (Simplifier_init ts_whole [0]))
      (the_parents ts_whole)))) = None"
    by code_simp
  from 3 simplify_fails_without_edgeset [OF 1 2 3] show ?thesis
    by simp
qed


text \<open>
  Claim C8. A sample list with a duplicate id or with an id outside the node table is to
  be refused with \<open>InvalidArgument\<close> before the sweep. With the sample list
  \<open>[0, 0, 1]\<close> on \<open>ts_whole\<close> the constructor adds three sample rows, the sweep runs and
  \<open>simplify\<close> returns four node rows and the edgeset \<open>(0, 10, 3, [1, 2])\<close>.
\<close>

theorem simplify_accepts_duplicate_sample:
  "map_option (map_sum id (\<lambda>r. (length (out_nodes (snd r)), out_edgesets (snd r))))
     (run_simplify 2 ts_whole [0, 0, 1])
   = Some (Inr (4, [(0, 10, 3, [1, 2])]))"
  by code_simp


text \<open>
  Claim C8, as the code has it. The constructor checks nothing about the sample list. When
  every id lies inside the node table it succeeds, duplicates or not, with one node row
  per list element, and \<open>simplify\<close> goes on from that state; when some id lies outside,
  reading that node raises in the constructor and the sweep does not start.
\<close>

theorem simplify_sample_list_check:
  "((\<forall>i\<in>set smp. i < length (ts_nodes t)) \<longrightarrow>
      (\<exists>st. Simplifier_init t smp = Inr st \<and> length (node_table st) = length smp \<and>
            run_simplify fuel t smp = simplify fuel st)) \<and>
   ((\<exists>i\<in>set smp. length (ts_nodes t) \<le> i) \<longrightarrow>
      run_simplify fuel t smp = Some (Inl IndexError))"
proof (intro conjI impI)
  assume "\<forall>i\<in>set smp. i < length (ts_nodes t)"
  then have "\<forall>js\<in>set (enumerate 0 smp). snd js < length (ts_nodes (ts (new_simplifier t smp)))"
    using snd_enumerate_set [of 0 smp] by (auto simp: new_simplifier_def)
  from init_samples_ok [OF this] obtain st where "Simplifier_init t smp = Inr st"
    by (auto simp: Simplifier_init_def)
  then show "\<exists>st. Simplifier_init t smp = Inr st \<and> length (node_table st) = length smp \<and>
      run_simplify fuel t smp = simplify fuel st"
    by (auto simp: run_simplify_def Simplifier_init_frame)
next
  assume "\<exists>i\<in>set smp. length (ts_nodes t) \<le> i"
  then obtain i where i: "i \<in> snd ` set (enumerate 0 smp)" "length (ts_nodes t) \<le> i"
    by (auto simp: snd_enumerate_set)
  then obtain js where "js \<in> set (enumerate 0 smp)" "snd js = i"
    by auto
  with i have "\<exists>js\<in>set (enumerate 0 smp). length (ts_nodes (ts (new_simplifier t smp))) \<le> snd js"
    by (auto simp: new_simplifier_def)
  from init_samples_err [OF this] show "run_simplify fuel t smp = Some (Inl IndexError)"
    by (simp add: run_simplify_def Simplifier_init_def)
qed

theorem simplify_sample_list_check_witness:
  "(\<exists>st. Simplifier_init ts_whole [0, 0, 1] = Inr st \<and> length (node_table st) = 3 \<and>
         run_simplify 2 ts_whole [0, 0, 1] = simplify 2 st) \<and>
   run_simplify 2 ts_whole [0, 7] = Some (Inl IndexError)"
proof -
  have 1: "\<forall>i\<in>set [0, 0, 1]. i < length (ts_nodes ts_whole)"
    by code_simp
  have 2: "\<exists>i\<in>set [0, 7]. length (ts_nodes ts_whole) \<le> i"
    by code_simp
  from simplify_sample_list_check [of "[0, 0, 1]" ts_whole 2] 1
    simplify_sample_list_check [of "[0, 7]" ts_whole 2] 2
  show ?thesis
    by auto
qed

subsection \<open>Chains stay in order\<close>

lemma chain_ok_sorted_wrt:
  "chain_ok c \<longleftrightarrow> (\<forall>s\<in>set c. left s < right s) \<and> sorted_wrt (\<lambda>a b. right a \<le> left b) c"
proof (cases "\<forall>s\<in>set c. left s < right s")
  case True
  then have "successively (\<lambda>a b. right a \<le> left b) c \<longleftrightarrow> sorted_wrt (\<lambda>a b. right a \<le> left b) c"
    by (intro successively_iff_sorted_wrt_strong) force
  with True show ?thesis
    by (simp add: chain_ok_def)
next
  case False
  then show ?thesis
    by (auto simp: chain_ok_def)
qed

lemma chain_ok_Nil [simp]: "chain_ok []"
  by (simp add: chain_ok_def)

lemma chain_ok_Cons:
  "chain_ok (x # xs) \<longleftrightarrow> left x < right x \<and> chain_ok xs \<and> (\<forall>b\<in>set xs. right x \<le> left b)"
  by (auto simp: chain_ok_sorted_wrt)

lemma chain_ok_append:
  "chain_ok (xs @ ys) \<longleftrightarrow>
     chain_ok xs \<and> chain_ok ys \<and> (\<forall>a\<in>set xs. \<forall>b\<in>set ys. right a \<le> left b)"
  by (auto simp: chain_ok_sorted_wrt sorted_wrt_append)

lemma chain_within_simps [simp]:
  "chain_within b []"
  "chain_within b (x # xs) \<longleftrightarrow> right x \<le> b \<and> chain_within b xs"
  "chain_within b (xs @ ys) \<longleftrightarrow> chain_within b xs \<and> chain_within b ys"
  by (auto simp: chain_within_def)

lemma set_update_subset: "set (AList.update k v al) \<subseteq> insert (k, v) (set al)"
  by (induction al) auto

lemma set_delete_subset: "set (AList.delete k al) \<subseteq> set al"
  by (induction al) auto

lemma set_heappush [simp]: "set (heappush H e) = insert e (set H)"
  by (induction H) auto

lemma sorted_heappush:
  "sorted_wrt (\<lambda>e1 e2. fst e1 \<le> fst e2) H \<Longrightarrow>
   sorted_wrt (\<lambda>e1 e2. fst e1 \<le> fst e2) (heappush H e)"
  by (induction H) (auto simp: entry_lt_def)

lemma heap_inv_Nil [simp]: "heap_inv b []"
  by (simp add: heap_inv_def)

lemma heap_inv_heappush:
  "heap_inv b H \<Longrightarrow> chain_ok (x # nxt) \<Longrightarrow> chain_within b (x # nxt) \<Longrightarrow>
   heap_inv b (heappush H (left x, x, nxt))"
  by (auto simp: heap_inv_def sorted_heappush)

lemma ancestry_inv_update:
  "ancestry_inv st \<Longrightarrow> chain_ok c \<Longrightarrow> chain_within (self_m st) c \<Longrightarrow>
   A st' = AList.update k c (A st) \<Longrightarrow> self_m st' = self_m st \<Longrightarrow> ancestry_inv st'"
  using set_update_subset [of k c "A st"] by (auto simp: ancestry_inv_def)

lemma ancestry_inv_delete:
  "ancestry_inv st \<Longrightarrow> A st' = AList.delete k (A st) \<Longrightarrow> self_m st' = self_m st \<Longrightarrow>
   ancestry_inv st'"
  using set_delete_subset [of k "A st"] by (auto simp: ancestry_inv_def)

lemma ancestry_inv_same:
  "ancestry_inv st \<Longrightarrow> A st' = A st \<Longrightarrow> self_m st' = self_m st \<Longrightarrow> ancestry_inv st'"
  by (simp add: ancestry_inv_def)

lemma remove_ancestry_left_frame:
  assumes "remove_ancestry_left st el ys xs = (ys', xs', c, st')"
  shows "A st' = A st" "self_m st' = self_m st" "ts st' = ts st" "sample st' = sample st"
    "S st' = S st" "edgeset_table st' = edgeset_table st" "last_edgeset st' = last_edgeset st"
  using assms
  by (induction xs arbitrary: ys)
     (auto simp: alloc_segment_def Let_def split: if_splits prod.splits)

lemma remove_ancestry_left_chain:
  assumes "remove_ancestry_left st el ys xs = (ys', xs', c, st')"
    and "chain_ok (ys @ xs)" and "chain_within b (ys @ xs)"
  shows "chain_ok (ys' @ xs') \<and> chain_within b (ys' @ xs')"
  using assms
proof (induction xs arbitrary: ys)
  case Nil
  then show ?case by simp
next
  case (Cons x nxt)
  show ?case
  proof (cases "left x < el")
    case False
    with Cons.prems show ?thesis by simp
  next
    case True
    note lt = this
    show ?thesis
    proof (cases "right x > el")
      case False
      with lt Cons.prems have "remove_ancestry_left st el (ys @ [x]) nxt = (ys', xs', c, st')"
        by simp
      from Cons.IH [OF this] Cons.prems(2,3) show ?thesis
        by simp
    next
      case True
      with lt Cons.prems(1) have ys': "ys' = ys @ [x\<lparr>right := el\<rparr>]"
        and xs': "xs' = \<lparr>left = el, right = right x, node = node x\<rparr> # nxt"
        by (auto simp: alloc_segment_def)
      from Cons.prems(2) have ok: "chain_ok ys" "left x < right x" "chain_ok nxt"
        "\<forall>a\<in>set ys. right a \<le> left x" "\<forall>b\<in>set nxt. right x \<le> left b"
        "\<forall>a\<in>set ys. \<forall>b\<in>set nxt. right a \<le> left b"
        by (auto simp: chain_ok_append chain_ok_Cons)
      have "chain_ok (ys' @ xs')"
        unfolding ys' xs' using ok lt True
        by (fastforce simp: chain_ok_append chain_ok_Cons)
      moreover have "chain_within b (ys' @ xs')"
        unfolding ys' xs' using Cons.prems(3) lt True
        by auto
      ultimately show ?thesis ..
    qed
  qed
qed

lemma remove_ancestry_inside_frame:
  assumes "remove_ancestry_inside st er w xs = (w', xs', st')"
  shows "A st' = A st" "self_m st' = self_m st" "ts st' = ts st" "sample st' = sample st"
    "S st' = S st" "edgeset_table st' = edgeset_table st" "last_edgeset st' = last_edgeset st"
  using assms
  by (induction xs arbitrary: w st)
     (auto simp: alloc_segment_def free_segment_def Let_def split: if_splits prod.splits)

lemma remove_ancestry_inside_chain:
  assumes "remove_ancestry_inside st er w xs = (w', xs', st')"
    and "chain_ok w" and "chain_ok xs" and "\<forall>a\<in>set w. \<forall>b\<in>set xs. right a \<le> left b"
    and "chain_within b w" and "chain_within b xs"
  shows "chain_ok w' \<and> chain_within b w' \<and> chain_ok xs' \<and>
    (\<forall>s\<in>set xs'. \<exists>s0\<in>set xs. left s0 \<le> left s \<and> right s = right s0)"
  using assms
proof (induction xs arbitrary: w st)
  case Nil
  then show ?case by simp
next
  case (Cons x nxt)
  from Cons.prems(3) have x: "left x < right x" "chain_ok nxt" "\<forall>s\<in>set nxt. right x \<le> left s"
    by (auto simp: chain_ok_Cons)
  show ?case
  proof (cases "left x < er")
    case False
    with Cons.prems show ?thesis by auto
  next
    case True
    let ?next_w = "\<lparr>left = left x, right = min er (right x), node = node x\<rparr>"
    let ?w = "w @ [?next_w]"
    have w_ok: "chain_ok ?w"
      using Cons.prems(2,4) x True by (auto simp: chain_ok_append chain_ok_Cons)
    have w_in: "chain_within b ?w"
      using Cons.prems(5,6) by (auto simp: min_def)
    show ?thesis
    proof (cases "right x \<le> min er (right x)")
      case False
      with True Cons.prems(1) have "w' = ?w" "xs' = x\<lparr>left := er\<rparr> # nxt"
        by (auto simp: alloc_segment_def Let_def)
      moreover have "chain_ok (x\<lparr>left := er\<rparr> # nxt)"
        using x False by (auto simp: chain_ok_Cons min_def split: if_splits)
      ultimately show ?thesis
        using w_ok w_in True by auto
    next
      case le: True
      with True Cons.prems(1) obtain st1 where
        rec: "remove_ancestry_inside st1 er ?w nxt = (w', xs', st')"
        by (auto simp: alloc_segment_def Let_def)
      have cross: "\<forall>a\<in>set ?w. \<forall>s\<in>set nxt. right a \<le> left s"
        using Cons.prems(4) x le by (auto simp: min_def split: if_splits)
      from Cons.prems(6) have "chain_within b nxt"
        by simp
      from Cons.IH [OF rec w_ok x(2) cross w_in this] show ?thesis
        by auto
    qed
  qed
qed

lemma remove_ancestry_child_frame:
  assumes "remove_ancestry_child e child (st, H) = (st', H')"
  shows "self_m st' = self_m st \<and> ts st' = ts st \<and> sample st' = sample st \<and>
    S st' = S st \<and> edgeset_table st' = edgeset_table st \<and> last_edgeset st' = last_edgeset st"
proof (cases "map_of (A st) child")
  case None
  with assms show ?thesis
    by (simp add: remove_ancestry_child_def)
next
  case (Some chain)
  obtain ys xs c st1 where l: "remove_ancestry_left st (eleft e) [] chain = (ys, xs, c, st1)"
    by (metis prod_cases4)
  obtain w xs' st2 where i: "remove_ancestry_inside st1 (eright e) [] xs = (w, xs', st2)"
    by (metis prod_cases3)
  note fl = remove_ancestry_left_frame [OF l]
  note fi = remove_ancestry_inside_frame [OF i]
  have "self_m st2 = self_m st \<and> ts st2 = ts st \<and> sample st2 = sample st \<and>
    S st2 = S st \<and> edgeset_table st2 = edgeset_table st \<and> last_edgeset st2 = last_edgeset st"
    by (simp add: fl fi)
  with assms Some l i show ?thesis
    by (auto simp: remove_ancestry_child_def split: list.splits if_splits)
qed

lemma remove_ancestry_child_inv:
  assumes "remove_ancestry_child e child (st, H) = (st', H')"
    and "ancestry_inv st" and "heap_inv (self_m st) H"
  shows "ancestry_inv st' \<and> heap_inv (self_m st) H'"
proof (cases "map_of (A st) child")
  case None
  with assms show ?thesis
    by (simp add: remove_ancestry_child_def)
next
  case (Some chain)
  then have "(child, chain) \<in> set (A st)"
    by (rule map_of_SomeD)
  with assms(2) have chain: "chain_ok chain" "chain_within (self_m st) chain"
    by (auto simp: ancestry_inv_def)
  obtain ys xs c st1 where l: "remove_ancestry_left st (eleft e) [] chain = (ys, xs, c, st1)"
    by (metis prod_cases4)
  obtain w xs' st2 where i: "remove_ancestry_inside st1 (eright e) [] xs = (w, xs', st2)"
    by (metis prod_cases3)
  note fl = remove_ancestry_left_frame [OF l]
  note fi = remove_ancestry_inside_frame [OF i]
  from remove_ancestry_left_chain [OF l, of "self_m st"] chain
  have lc: "chain_ok (ys @ xs)" "chain_within (self_m st) (ys @ xs)"
    by simp_all
  then have ys: "chain_ok ys" "chain_ok xs" "\<forall>a\<in>set ys. \<forall>s\<in>set xs. right a \<le> left s"
    "chain_within (self_m st) ys" "chain_within (self_m st) xs"
    by (auto simp: chain_ok_append)
  from remove_ancestry_inside_chain [OF i _ ys(2) _ _ ys(5)]
  have ic: "chain_ok w" "chain_within (self_m st) w" "chain_ok xs'"
    "\<forall>s\<in>set xs'. \<exists>s0\<in>set xs. left s0 \<le> left s \<and> right s = right s0"
    by simp_all
  have new_ok: "chain_ok (ys @ xs')"
    using ys(1,3) ic(3,4) by (fastforce simp: chain_ok_append)
  have new_in: "chain_within (self_m st) (ys @ xs')"
    using ys(4,5) ic(4) by (fastforce simp: chain_within_def)
  have m2: "self_m st2 = self_m st" and A2: "A st2 = A st"
    by (simp_all add: fl fi)
  have inv2: "ancestry_inv st2"
    using assms(2) A2 m2 by (rule ancestry_inv_same)
  show ?thesis
  proof (cases w)
    case Nil
    show ?thesis
    proof (cases c)
      case True
      with Nil Some l i assms(1) have st': "st' = st2\<lparr>A := AList.update child ys (A st2)\<rparr>"
        and H': "H' = H"
        by (simp_all add: remove_ancestry_child_def)
      have "ancestry_inv st'"
        by (rule ancestry_inv_update [OF inv2 ys(1), where k = child])
           (simp_all add: st' m2 ys(4))
      with H' assms(3) show ?thesis
        by (simp add: st' m2)
    next
      case False
      with Nil Some l i assms(1) have "st' = st2" "H' = H"
        by (simp_all add: remove_ancestry_child_def)
      with inv2 assms(3) m2 show ?thesis
        by simp
    qed
  next
    case (Cons w0 wn)
    with Some l i assms(1) have
      st': "st' = st2\<lparr>A := (if ys = [] \<and> xs' = [] then AList.delete child (A st2)
                              else AList.update child (ys @ xs') (A st2))\<rparr>"
      and H': "H' = heappush H (left w0, w0, wn)"
      by (simp_all add: remove_ancestry_child_def)
    have "ancestry_inv st'"
    proof (cases "ys = [] \<and> xs' = []")
      case True
      show ?thesis
        by (rule ancestry_inv_delete [OF inv2, where k = child]) (simp_all add: st' True)
    next
      case False
      show ?thesis
      proof (rule ancestry_inv_update [OF inv2 new_ok, where k = child])
        show "chain_within (self_m st2) (ys @ xs')"
          using new_in m2 by simp
        show "A st' = AList.update child (ys @ xs') (A st2)"
          using False by (auto simp: st')
        show "self_m st' = self_m st2"
          by (simp add: st')
      qed
    qed
    moreover have "heap_inv (self_m st) H'"
      unfolding H' using assms(3) ic(1,2) Cons
      by (auto simp: st' m2 intro!: heap_inv_heappush)
    ultimately show ?thesis ..
  qed
qed

lemma remove_ancestry_children_inv:
  assumes "fold (remove_ancestry_child e) cs (st, H) = (st', H')"
    and "ancestry_inv st" and "heap_inv (self_m st) H"
  shows "ancestry_inv st' \<and> heap_inv (self_m st) H' \<and> self_m st' = self_m st \<and>
    ts st' = ts st \<and> sample st' = sample st \<and> S st' = S st \<and>
    edgeset_table st' = edgeset_table st \<and> last_edgeset st' = last_edgeset st"
  using assms
proof (induction cs arbitrary: st H)
  case Nil
  then show ?case by simp
next
  case (Cons child cs)
  obtain st1 H1 where 1: "remove_ancestry_child e child (st, H) = (st1, H1)"
    by (cases "remove_ancestry_child e child (st, H)")
  with Cons.prems(1) have 2: "fold (remove_ancestry_child e) cs (st1, H1) = (st', H')"
    by simp
  note f = remove_ancestry_child_frame [OF 1]
  from remove_ancestry_child_inv [OF 1 Cons.prems(2,3)] f
  have "ancestry_inv st1" "heap_inv (self_m st1) H1"
    by simp_all
  from Cons.IH [OF 2 this] f show ?case
    by simp
qed

lemma remove_ancestry_edgesets_inv:
  assumes "fold (\<lambda>e acc. fold (remove_ancestry_child e) (children e) acc) es (st, H) = (st', H')"
    and "ancestry_inv st" and "heap_inv (self_m st) H"
  shows "ancestry_inv st' \<and> heap_inv (self_m st) H' \<and> self_m st' = self_m st \<and>
    ts st' = ts st \<and> sample st' = sample st \<and> S st' = S st \<and>
    edgeset_table st' = edgeset_table st \<and> last_edgeset st' = last_edgeset st"
  using assms
proof (induction es arbitrary: st H)
  case Nil
  then show ?case by simp
next
  case (Cons e es)
  obtain st1 H1 where 1: "fold (remove_ancestry_child e) (children e) (st, H) = (st1, H1)"
    by (cases "fold (remove_ancestry_child e) (children e) (st, H)")
  with Cons.prems(1) have
    2: "fold (\<lambda>e acc. fold (remove_ancestry_child e) (children e) acc) es (st1, H1) = (st', H')"
    by simp
  note a = remove_ancestry_children_inv [OF 1 Cons.prems(2,3)]
  from a have "ancestry_inv st1" "heap_inv (self_m st1) H1"
    by simp_all
  from Cons.IH [OF 2 this] a show ?case
    by simp
qed

lemma remove_ancestry_inv:
  assumes "remove_ancestry st es = (st', H)" and "ancestry_inv st"
  shows "ancestry_inv st' \<and> heap_inv (self_m st) H \<and> self_m st' = self_m st \<and>
    ts st' = ts st \<and> sample st' = sample st \<and> S st' = S st \<and>
    edgeset_table st' = edgeset_table st \<and> last_edgeset st' = last_edgeset st"
  using remove_ancestry_edgesets_inv [of es st "[]" st' H] assms
  by (simp add: remove_ancestry_def)

lemma S_get_key: "S_get sm k = Inr v \<Longrightarrow> k \<in> fst ` set sm"
  by (auto simp: S_get_def split: option.splits dest: map_of_SomeD intro: rev_image_eqI)

lemma S_ensure_key_keys:
  assumes "S_ensure_key sm k = Inr sm'"
  shows "k \<in> fst ` set sm'" "fst ` set sm \<subseteq> fst ` set sm'"
proof -
  have "k \<in> fst ` set sm' \<and> fst ` set sm \<subseteq> fst ` set sm'"
  proof (cases "map_of sm k = None")
    case True
    with assms obtain v where "sm' = AList.update k v sm"
      by (auto simp: S_ensure_key_def split: sum.splits)
    then have "fst ` set sm' = {k} \<union> fst ` set sm"
      by (simp only: dom_update)
    then show ?thesis
      by blast
  next
    case False
    with assms have "sm' = sm"
      by (simp add: S_ensure_key_def)
    moreover from False have "k \<in> fst ` set sm"
      by (simp add: map_of_eq_None_iff)
    ultimately show ?thesis
      by simp
  qed
  then show "k \<in> fst ` set sm'" "fst ` set sm \<subseteq> fst ` set sm'"
    by blast+
qed

lemma succ_key_props:
  assumes "succ_key sm k = Inr r"
  shows "k < r" "r \<in> fst ` set sm" "\<forall>j\<in>fst ` set sm. k < j \<longrightarrow> r \<le> j"
proof -
  let ?ks = "filter (\<lambda>j. k < j) (map fst sm)"
  from assms have ne: "?ks \<noteq> []" and r: "r = Min (set ?ks)"
    by (auto simp: succ_key_def Let_def split: if_splits)
  from ne have "set ?ks \<noteq> {}"
    unfolding set_empty .
  then have "r \<in> set ?ks"
    unfolding r by (rule Min_in [OF finite_set])
  then show "k < r" "r \<in> fst ` set sm"
    by auto
  show "\<forall>j\<in>fst ` set sm. k < j \<longrightarrow> r \<le> j"
  proof (intro ballI impI)
    fix j assume "j \<in> fst ` set sm" "k < j"
    then have "j \<in> set ?ks"
      by auto
    then show "r \<le> j"
      unfolding r by (intro Min_le) auto
  qed
qed

lemma S_walk_bounds:
  "S_walk sm r0 r_max k = Inr (sm', r) \<Longrightarrow> r_max \<in> fst ` set sm \<Longrightarrow> r0 \<le> r_max \<Longrightarrow>
   r0 \<le> r \<and> r \<le> r_max"
proof (induction sm r0 r_max k rule: S_walk.induct)
  case (1 sm r0 r_max k)
  show ?case
  proof (cases "r0 < r_max")
    case False
    with "1.prems" show ?thesis
      by (subst (asm) S_walk.simps) simp
  next
    case True
    with "1.prems"(1) obtain v where v: "S_get sm r0 = Inr v"
      by (subst (asm) S_walk.simps) (auto split: sum.splits)
    show ?thesis
    proof (cases "v = k")
      case True
      with v \<open>r0 < r_max\<close> "1.prems" show ?thesis
        by (subst (asm) S_walk.simps) simp
    next
      case False
      let ?sm = "AList.update r0 (v - (k - 1)) sm"
      from v False \<open>r0 < r_max\<close> "1.prems"(1) obtain r' where r': "succ_key ?sm r0 = Inr r'"
        and rec: "S_walk ?sm r' r_max k = Inr (sm', r)"
        by (subst (asm) S_walk.simps) (auto split: sum.splits)
      have keys: "fst ` set ?sm = fst ` set sm"
        using S_get_key [OF v] by (auto simp: dom_update)
      from succ_key_props [OF r'] keys "1.prems"(2) \<open>r0 < r_max\<close>
      have "r0 < r'" "r' \<le> r_max"
        by auto
      moreover from "1.IH" [OF \<open>r0 < r_max\<close> v False r' rec] keys "1.prems"(2) \<open>r' \<le> r_max\<close>
      have "r' \<le> r \<and> r \<le> r_max"
        by simp
      ultimately show ?thesis
        by simp
    qed
  qed
qed

lemma S_walk_strict:
  assumes "S_walk sm l r_max k = Inr (sm', r)" and "S_get sm l = Inr v" and "v \<noteq> k"
    and "l < r_max" and "r_max \<in> fst ` set sm"
  shows "l < r \<and> r \<le> r_max"
proof -
  let ?sm = "AList.update l (v - (k - 1)) sm"
  from assms(1-4) obtain r' where r': "succ_key ?sm l = Inr r'"
    and rec: "S_walk ?sm r' r_max k = Inr (sm', r)"
    by (subst (asm) S_walk.simps) (auto split: sum.splits)
  have keys: "fst ` set ?sm = fst ` set sm"
    using S_get_key [OF assms(2)] by (auto simp: dom_update)
  from succ_key_props [OF r'] keys assms(4,5)
  have "l < r'" "r' \<le> r_max"
    by auto
  moreover from S_walk_bounds [OF rec] keys assms(5) \<open>r' \<le> r_max\<close>
  have "r' \<le> r \<and> r \<le> r_max"
    by simp
  ultimately show ?thesis
    by simp
qed

lemma merge_right_endpoint_props:
  assumes "merge_right_endpoint st input_id l r_max k u = Inr (r, alpha, st')"
    and "l < r_max" and "r_max \<in> fst ` set (S st)"
  shows "l < r \<and> r \<le> r_max \<and> (alpha = None \<or> alpha = Some \<lparr>left = l, right = r, node = u\<rparr>) \<and>
    A st' = A st \<and> self_m st' = self_m st \<and> ts st' = ts st \<and> sample st' = sample st \<and>
    edgeset_table st' = edgeset_table st \<and> last_edgeset st' = last_edgeset st"
proof -
  from assms(1) obtain v where v: "S_get (S st) l = Inr v"
    by (auto simp: merge_right_endpoint_def split: sum.splits)
  show ?thesis
  proof (cases "v = int k")
    case True
    let ?st1 = "st\<lparr>S := AList.update l 0 (S st)\<rparr>"
    from True v assms(1) have r: "succ_key (S ?st1) l = Inr r"
      and upd: "update_ancestral_state ?st1 input_id l r = Inr st'" and "alpha = None"
      by (auto simp: merge_right_endpoint_def Let_def split: sum.splits)
    have keys: "fst ` set (S ?st1) = fst ` set (S st)"
      using S_get_key [OF v] by (auto simp: dom_update)
    from keys assms(3) have rm: "r_max \<in> fst ` set (S ?st1)"
      by simp
    note sk = succ_key_props [OF r]
    have "l < r"
      by (rule sk(1))
    moreover have "r \<le> r_max"
      using bspec [OF sk(3) rm] assms(2) by simp
    moreover from update_ancestral_state_same [OF upd] have "st' = ?st1" .
    ultimately show ?thesis
      using \<open>alpha = None\<close> by simp
  next
    case False
    with v assms(1) obtain sm where w: "S_walk (S st) l r_max (int k) = Inr (sm, r)"
      and res: "alpha = Some \<lparr>left = l, right = r, node = u\<rparr>"
        "st' = st\<lparr>S := sm, num_used_segments := num_used_segments st + 1\<rparr>"
      by (auto simp: merge_right_endpoint_def Let_def alloc_segment_def split: sum.splits)
    from S_walk_strict [OF w v False assms(2,3)] res show ?thesis
      by simp
  qed
qed

lemma drain_props:
  assumes "drain l H X r = (H1, X', r')"
  shows "\<exists>taken. H = taken @ H1 \<and> X' = X @ map snd taken \<and> (\<forall>e\<in>set taken. fst e = l) \<and>
    (H1 = [] \<or> fst (hd H1) \<noteq> l) \<and> r' \<le> r \<and> (\<forall>e\<in>set taken. r' \<le> right (fst (snd e))) \<and>
    (r' = r \<or> (\<exists>e\<in>set taken. r' = right (fst (snd e))))"
  using assms
proof (induction H arbitrary: X r)
  case Nil
  then show ?case by simp
next
  case (Cons h H)
  show ?case
  proof (cases "fst h = l")
    case False
    with Cons.prems show ?thesis
      by auto
  next
    case True
    with Cons.prems have "drain l H (X @ [snd h]) (min r (right (fst (snd h)))) = (H1, X', r')"
      by simp
    from Cons.IH [OF this] obtain taken where t: "H = taken @ H1"
      "X' = (X @ [snd h]) @ map snd taken" "\<forall>e\<in>set taken. fst e = l"
      "H1 = [] \<or> fst (hd H1) \<noteq> l" "r' \<le> min r (right (fst (snd h)))"
      "\<forall>e\<in>set taken. r' \<le> right (fst (snd e))"
      "r' = min r (right (fst (snd h))) \<or> (\<exists>e\<in>set taken. r' = right (fst (snd e)))"
      by blast
    show ?thesis
    proof (intro exI [of _ "h # taken"] conjI)
      show "r' = r \<or> (\<exists>e\<in>set (h # taken). r' = right (fst (snd e)))"
        using t(7) by (auto simp: min_def split: if_splits)
    qed (use t True in auto)
  qed
qed

lemma sorted_hd_min:
  fixes H :: "heap_entry list"
  shows "sorted_wrt (\<lambda>e1 e2. fst e1 \<le> fst e2) H \<Longrightarrow> e \<in> set H \<Longrightarrow> fst (hd H) \<le> fst e"
  by (cases H) auto

lemma heap_inv_hd_min: "heap_inv b H \<Longrightarrow> e \<in> set H \<Longrightarrow> fst (hd H) \<le> fst e"
  by (rule sorted_hd_min) (simp_all add: heap_inv_def)

lemma heap_inv_push_cut:
  assumes "heap_inv b H" and "chain_ok (x # nxt)" and "chain_within b (x # nxt)"
    and "k < right x"
  shows "heap_inv b (heappush H (k, x\<lparr>left := k\<rparr>, nxt))"
proof -
  have "chain_ok (x\<lparr>left := k\<rparr> # nxt)" "chain_within b (x\<lparr>left := k\<rparr> # nxt)"
    using assms(2-4) by (auto simp: chain_ok_Cons)
  from heap_inv_heappush [OF assms(1) this] show ?thesis
    by simp
qed

lemma heap_inv_push_next:
  assumes "heap_inv b H" and "chain_ok (x # y # ynxt)" and "chain_within b (x # y # ynxt)"
  shows "heap_inv b (heappush H (left y, y, ynxt))"
  using assms by (intro heap_inv_heappush) (auto simp: chain_ok_Cons)

lemma merge_singleton_props:
  assumes "merge_singleton st H1 (x, nxt) = (alpha, st1, H2)"
    and "heap_inv b H1" and "chain_ok (x # nxt)" and "chain_within b (x # nxt)"
    and "\<forall>e\<in>set H1. left x < fst e"
  shows "heap_inv b H2 \<and> left alpha = left x \<and> left alpha < right alpha \<and> right alpha \<le> b \<and>
    (\<forall>e\<in>set H2. right alpha \<le> fst e) \<and>
    A st1 = A st \<and> self_m st1 = self_m st \<and> ts st1 = ts st \<and> sample st1 = sample st \<and>
    edgeset_table st1 = edgeset_table st \<and> last_edgeset st1 = last_edgeset st"
proof (cases "H1 \<noteq> [] \<and> fst (hd H1) < right x")
  case True
  let ?k = "fst (hd H1)"
  from True assms(1) have res: "alpha = \<lparr>left = left x, right = ?k, node = node x\<rparr>"
    "st1 = st\<lparr>num_used_segments := num_used_segments st + 1\<rparr>"
    "H2 = heappush H1 (?k, x\<lparr>left := ?k\<rparr>, nxt)"
    by (auto simp: merge_singleton_def alloc_segment_def Let_def)
  from True have hd: "hd H1 \<in> set H1"
    by simp
  with assms(5) have lk: "left x < ?k"
    by blast
  from assms(2) have min: "\<forall>e\<in>set H1. ?k \<le> fst e"
    by (blast intro: heap_inv_hd_min)
  have "heap_inv b H2"
    unfolding res using assms(2-4) True by (intro heap_inv_push_cut) auto
  moreover have "right alpha \<le> b"
    using True assms(4) by (simp add: res)
  ultimately show ?thesis
    using lk min by (simp add: res)
next
  case False
  with assms(1) have res: "alpha = x" "st1 = st"
    "H2 = (case nxt of [] \<Rightarrow> H1 | y # ynxt \<Rightarrow> heappush H1 (left y, y, ynxt))"
    by (auto simp: merge_singleton_def)
  from assms(2) have min: "\<forall>e\<in>set H1. fst (hd H1) \<le> fst e"
    by (blast intro: heap_inv_hd_min)
  have le: "\<forall>e\<in>set H1. right x \<le> fst e"
  proof
    fix e assume e: "e \<in> set H1"
    then have "H1 \<noteq> []" by auto
    with False have "right x \<le> fst (hd H1)" by simp
    with min e show "right x \<le> fst e" by force
  qed
  show ?thesis
  proof (cases nxt)
    case Nil
    with res assms(2-4) le show ?thesis
      by (simp add: chain_ok_Cons)
  next
    case (Cons y ynxt)
    have "heap_inv b H2"
      using assms(2-4) unfolding res Cons by (simp add: heap_inv_push_next)
    with res assms(3,4) le Cons show ?thesis
      by (auto simp: chain_ok_Cons)
  qed
qed

lemma merge_overlap_x_props:
  assumes "merge_overlap_x r u (x, nxt) (st, H, cs) = (st', H', cs')"
    and "heap_inv b H" and "\<forall>e\<in>set H. r \<le> fst e"
    and "chain_ok (x # nxt)" and "chain_within b (x # nxt)"
  shows "heap_inv b H' \<and> (\<forall>e\<in>set H'. r \<le> fst e) \<and>
    A st' = A st \<and> self_m st' = self_m st \<and> ts st' = ts st \<and> sample st' = sample st \<and>
    edgeset_table st' = edgeset_table st \<and> last_edgeset st' = last_edgeset st \<and> S st' = S st"
proof (cases "right x = r")
  case True
  show ?thesis
  proof (cases nxt)
    case Nil
    with True assms show ?thesis
      by (auto simp: merge_overlap_x_def Let_def free_segment_def)
  next
    case (Cons y ynxt)
    with True assms(1) have res: "st' = free_segment st x" "H' = heappush H (left y, y, ynxt)"
      by (auto simp: merge_overlap_x_def Let_def)
    have "heap_inv b H'"
      using assms(2,4,5) unfolding res Cons by (simp add: heap_inv_push_next)
    moreover have "r \<le> left y"
      using assms(4) True Cons by (auto simp: chain_ok_Cons)
    ultimately show ?thesis
      using assms(3) by (simp add: res free_segment_def)
  qed
next
  case False
  show ?thesis
  proof (cases "right x > r")
    case True
    with False assms(1) have res: "st' = st" "H' = heappush H (r, x\<lparr>left := r\<rparr>, nxt)"
      by (auto simp: merge_overlap_x_def Let_def)
    have "heap_inv b H'"
      unfolding res using assms(2,4,5) True by (intro heap_inv_push_cut) auto
    then show ?thesis
      using assms(3) by (simp add: res)
  next
    case nogt: False
    with False assms show ?thesis
      by (auto simp: merge_overlap_x_def Let_def)
  qed
qed

lemma merge_overlap_xs_props:
  assumes "fold (merge_overlap_x r u) X (st, H, cs) = (st', H', cs')"
    and "heap_inv b H" and "\<forall>e\<in>set H. r \<le> fst e"
    and "\<forall>xn\<in>set X. chain_ok (fst xn # snd xn) \<and> chain_within b (fst xn # snd xn)"
  shows "heap_inv b H' \<and> (\<forall>e\<in>set H'. r \<le> fst e) \<and>
    A st' = A st \<and> self_m st' = self_m st \<and> ts st' = ts st \<and> sample st' = sample st \<and>
    edgeset_table st' = edgeset_table st \<and> last_edgeset st' = last_edgeset st \<and> S st' = S st"
  using assms
proof (induction X arbitrary: st H cs)
  case Nil
  then show ?case by simp
next
  case (Cons xn X)
  obtain x nxt where xn: "xn = (x, nxt)"
    by (cases xn)
  obtain st1 H1 cs1 where 1: "merge_overlap_x r u (x, nxt) (st, H, cs) = (st1, H1, cs1)"
    by (metis prod_cases3)
  with Cons.prems(1) xn have 2: "fold (merge_overlap_x r u) X (st1, H1, cs1) = (st', H', cs')"
    by simp
  from Cons.prems(4) xn have "chain_ok (x # nxt)" "chain_within b (x # nxt)"
    by simp_all
  note p = merge_overlap_x_props [OF 1 Cons.prems(2,3) this]
  from p have "heap_inv b H1" "\<forall>e\<in>set H1. r \<le> fst e"
    by simp_all
  from Cons.IH [OF 2 this] Cons.prems(4) p show ?case
    by simp
qed

lemma merge_tail_props:
  assumes "merge_tail input_id alpha zc st = (zc', st')"
  shows "(case alpha of None \<Rightarrow> zc' = zc \<and> A st' = A st
          | Some a \<Rightarrow> zc' = zc @ [a] \<and> A st' = AList.update input_id zc' (A st)) \<and>
    self_m st' = self_m st \<and> ts st' = ts st \<and> sample st' = sample st \<and>
    edgeset_table st' = edgeset_table st \<and> last_edgeset st' = last_edgeset st \<and> S st' = S st"
  using assms
  by (auto simp: merge_tail_def Let_def record_mutations_frame split: option.splits)

lemma merge_output_node_frame:
  assumes "merge_output_node st input_id co u = Inr (u', st1)"
  shows "A st1 = A st \<and> self_m st1 = self_m st \<and> ts st1 = ts st \<and>
    sample st1 = sample st \<and> edgeset_table st1 = edgeset_table st \<and>
    last_edgeset st1 = last_edgeset st \<and> S st1 = S st"
proof (cases co)
  case True
  with assms show ?thesis
    by (simp add: merge_output_node_def)
next
  case False
  with assms obtain v where c: "check_or_record_node st input_id = Inr (v, st1)"
    by (auto simp: merge_output_node_def split: sum.splits)
  from check_or_record_node_frame [OF c] show ?thesis
    by simp
qed

lemma merge_overlap_props:
  assumes ov: "merge_overlap input_id l r_max X st H co u = Inr (alpha, st', H', co', u')"
    and H: "heap_inv (self_m st) H" and Hr: "\<forall>e\<in>set H. r_max \<le> fst e" and lr: "l < r_max"
    and X: "\<forall>xn\<in>set X. chain_ok (fst xn # snd xn) \<and> chain_within (self_m st) (fst xn # snd xn)"
  shows "\<exists>r uv cs st3. l < r \<and> r \<le> r_max \<and>
    (alpha = None \<or> alpha = Some \<lparr>left = l, right = r, node = uv\<rparr>) \<and>
    heap_inv (self_m st) H' \<and> (\<forall>e\<in>set H'. r \<le> fst e) \<and>
    A st' = A st \<and> self_m st' = self_m st \<and> ts st' = ts st \<and> sample st' = sample st \<and>
    st' = record_edgeset st3 l r uv cs \<and>
    edgeset_table st3 = edgeset_table st \<and> last_edgeset st3 = last_edgeset st"
proof -
  from ov obtain uv st1 sm1 sm2 r st2 st3 cs where
    n: "merge_output_node st input_id co u = Inr (Some uv, st1)"
    and k1: "S_ensure_key (S st1) l = Inr sm1" and k2: "S_ensure_key sm1 r_max = Inr sm2"
    and ep: "merge_right_endpoint (st1\<lparr>S := sm2\<rparr>) input_id l r_max (length X) uv = Inr (r, alpha, st2)"
    and xs: "fold (merge_overlap_x r uv) X (st2, H, []) = (st3, H', cs)"
    and st': "st' = record_edgeset st3 l r uv cs"
    unfolding merge_overlap_def
    by (auto split: sum.splits option.splits prod.splits)
  note f1 = merge_output_node_frame [OF n]
  have "r_max \<in> fst ` set (S (st1\<lparr>S := sm2\<rparr>))"
    using S_ensure_key_keys(1) [OF k2] by simp
  note p = merge_right_endpoint_props [OF ep lr this]
  from p Hr have Hr': "\<forall>e\<in>set H. r \<le> fst e"
    by force
  from p f1 have m2: "self_m st2 = self_m st"
    by simp
  note q = merge_overlap_xs_props [OF xs H Hr' X]
  show ?thesis
  proof (intro exI [of _ r] exI [of _ uv] exI [of _ cs] exI [of _ st3] conjI)
    show "st' = record_edgeset st3 l r uv cs"
      by (rule st')
  qed (use p q f1 in \<open>simp_all add: st' record_edgeset_frame\<close>)
qed

lemma merge_iteration_inv:
  assumes inv: "merge_inv (st, H, co, u, zc)" and ne: "H \<noteq> []"
    and it: "merge_iteration input_id (st, H, co, u, zc) = Inr (st', H', co', u', zc')"
  shows "merge_inv (st', H', co', u', zc') \<and> self_m st' = self_m st \<and> ts st' = ts st \<and>
    sample st' = sample st"
proof -
  let ?l = "fst (hd H)"
  let ?b = "self_m st"
  from inv have ainv: "ancestry_inv st" and hinv: "heap_inv ?b H" and zok: "chain_ok zc"
    and zin: "chain_within ?b zc" and zH: "\<forall>a\<in>set zc. \<forall>e\<in>set H. right a \<le> fst e"
    by (simp_all add: merge_inv_def)
  obtain H1 X r0 where d: "drain ?l H [] (?b + 1) = (H1, X, r0)"
    by (metis prod_cases3)
  from drain_props [OF d] obtain taken where t: "H = taken @ H1" "X = map snd taken"
    "\<forall>e\<in>set taken. fst e = ?l" "H1 = [] \<or> fst (hd H1) \<noteq> ?l" "r0 \<le> ?b + 1"
    "\<forall>e\<in>set taken. r0 \<le> right (fst (snd e))"
    "r0 = ?b + 1 \<or> (\<exists>e\<in>set taken. r0 = right (fst (snd e)))"
    by auto
  have tne: "taken \<noteq> []"
  proof
    assume "taken = []"
    with t(1,4) ne show False by simp
  qed
  from ne have hdH: "hd H \<in> set H"
    by simp
  with zH have zl: "\<forall>a\<in>set zc. right a \<le> ?l"
    by blast
  have entry: "fst e = left (fst (snd e)) \<and> chain_ok (fst (snd e) # snd (snd e)) \<and>
      chain_within ?b (fst (snd e) # snd (snd e))" if "e \<in> set H" for e
    using hinv that by (simp add: heap_inv_def)
  have tk: "left (fst (snd e)) = ?l \<and> chain_ok (fst (snd e) # snd (snd e)) \<and>
      chain_within ?b (fst (snd e) # snd (snd e)) \<and> ?l < right (fst (snd e)) \<and>
      right (fst (snd e)) \<le> ?b" if "e \<in> set taken" for e
    using entry [of e] t(1,3) that by (auto simp: chain_ok_Cons)
  have Xp: "\<forall>xn\<in>set X. left (fst xn) = ?l \<and> chain_ok (fst xn # snd xn) \<and>
      chain_within ?b (fst xn # snd xn)"
    using tk unfolding t(2) by auto
  from hinv t(1) have h1: "heap_inv ?b H1"
    by (auto simp: heap_inv_def sorted_wrt_append)
  have l_lt: "\<forall>e\<in>set H1. ?l < fst e"
  proof
    fix e assume e: "e \<in> set H1"
    then have "H1 \<noteq> []" by auto
    with t(4) have neq: "fst (hd H1) \<noteq> ?l" by simp
    from \<open>H1 \<noteq> []\<close> have "hd H1 \<in> set H" using t(1) by simp
    with hinv have "?l \<le> fst (hd H1)" by (rule heap_inv_hd_min)
    moreover from h1 e have "fst (hd H1) \<le> fst e" by (rule heap_inv_hd_min)
    ultimately show "?l < fst e" using neq by simp
  qed
  from tne obtain e0 where e0: "e0 \<in> set taken"
    by (cases taken) auto
  have r0l: "?l < r0"
  proof -
    from tk [OF e0] have "?l < ?b + 1" by simp
    with t(7) tk show ?thesis by auto
  qed
  have r0b: "r0 \<le> ?b"
    using t(6) tk [OF e0] e0 by force
  define r_max where "r_max = (if H1 \<noteq> [] then min r0 (fst (hd H1)) else r0)"
  have rm_l: "?l < r_max"
    using r0l l_lt by (auto simp: r_max_def)
  have rm_b: "r_max \<le> ?b"
    using r0b by (auto simp: r_max_def)
  have rm_H: "\<forall>e\<in>set H1. r_max \<le> fst e"
  proof
    fix e assume e: "e \<in> set H1"
    then have "H1 \<noteq> []" by auto
    then have "r_max \<le> fst (hd H1)" by (simp add: r_max_def)
    moreover from h1 e have "fst (hd H1) \<le> fst e" by (rule heap_inv_hd_min)
    ultimately show "r_max \<le> fst e" by simp
  qed
  show ?thesis
  proof (cases "length X = 1")
    case True
    then obtain x nxt where X1: "X = [(x, nxt)]"
      by (cases X) auto
    obtain alpha st1 H2 where s: "merge_singleton st H1 (x, nxt) = (alpha, st1, H2)"
      by (metis prod_cases3)
    obtain zc2 st2 where tl: "merge_tail input_id (Some alpha) zc st1 = (zc2, st2)"
      by (cases "merge_tail input_id (Some alpha) zc st1")
    from it d True X1 s tl have res: "st' = st2" "H' = H2" "zc' = zc2"
      by (simp_all add: merge_iteration_def Let_def)
    from Xp X1 have x: "left x = ?l" "chain_ok (x # nxt)" "chain_within ?b (x # nxt)"
      by simp_all
    from l_lt x(1) have "\<forall>e\<in>set H1. left x < fst e"
      by simp
    note p = merge_singleton_props [OF s h1 x(2,3) this]
    note q = merge_tail_props [OF tl]
    from q have zc2: "zc2 = zc @ [alpha]" and A2: "A st2 = AList.update input_id zc2 (A st1)"
      by simp_all
    have ok2: "chain_ok zc2"
      unfolding zc2 using zok zl p x(1) by (auto simp: chain_ok_append chain_ok_Cons)
    have in2: "chain_within ?b zc2"
      unfolding zc2 using zin p by simp
    have "ancestry_inv st2"
      by (rule ancestry_inv_update [OF ainv ok2 in2, where k = input_id])
         (use p q A2 in simp_all)
    moreover have "\<forall>a\<in>set zc2. \<forall>e\<in>set H2. right a \<le> fst e"
    proof (intro ballI)
      fix a e assume a: "a \<in> set zc2" and e: "e \<in> set H2"
      from p e have ae: "right alpha \<le> fst e" by simp
      show "right a \<le> fst e"
      proof (cases "a = alpha")
        case True
        with ae show ?thesis by simp
      next
        case False
        with a have "a \<in> set zc" by (simp add: zc2)
        with zl have "right a \<le> ?l" by simp
        also from p x(1) have "?l < right alpha" by simp
        finally show ?thesis using ae by simp
      qed
    qed
    ultimately show ?thesis
      using p q ok2 in2 by (simp add: merge_inv_def res)
  next
    case False
    from it d False obtain alpha st1 where
      ov: "merge_overlap input_id ?l r_max X st H1 co u = Inr (alpha, st1, H', co', u')"
      and tl: "merge_tail input_id alpha zc st1 = (zc', st')"
      by (auto simp: merge_iteration_def Let_def r_max_def split: sum.splits prod.splits)
    from Xp have X': "\<forall>xn\<in>set X. chain_ok (fst xn # snd xn) \<and> chain_within ?b (fst xn # snd xn)"
      by simp
    from merge_overlap_props [OF ov h1 rm_H rm_l X'] obtain r uv where
      p: "?l < r" "r \<le> r_max" "alpha = None \<or> alpha = Some \<lparr>left = ?l, right = r, node = uv\<rparr>"
      "heap_inv ?b H'" "\<forall>e\<in>set H'. r \<le> fst e" "A st1 = A st" "self_m st1 = self_m st"
      "ts st1 = ts st" "sample st1 = sample st"
      by blast
    note q = merge_tail_props [OF tl]
    have zr: "\<forall>a\<in>set zc. \<forall>e\<in>set H'. right a \<le> fst e"
    proof (intro ballI)
      fix a e assume "a \<in> set zc" "e \<in> set H'"
      with zl p(1,5) have "right a \<le> ?l" "?l < r" "r \<le> fst e" by simp_all
      then show "right a \<le> fst e" by simp
    qed
    from p(3) show ?thesis
    proof
      assume "alpha = None"
      with q have "zc' = zc" "A st' = A st1" by simp_all
      moreover have "ancestry_inv st'"
        by (rule ancestry_inv_same [OF ainv]) (use q p \<open>A st' = A st1\<close> in simp_all)
      ultimately show ?thesis
        using p q zok zin zr by (simp add: merge_inv_def)
    next
      assume al: "alpha = Some \<lparr>left = ?l, right = r, node = uv\<rparr>"
      let ?a = "\<lparr>left = ?l, right = r, node = uv\<rparr>"
      from q al have zc': "zc' = zc @ [?a]" and A': "A st' = AList.update input_id zc' (A st1)"
        by simp_all
      have ok2: "chain_ok zc'"
        unfolding zc' using zok zl p(1) by (auto simp: chain_ok_append chain_ok_Cons)
      have in2: "chain_within ?b zc'"
        unfolding zc' using zin p(2) rm_b by simp
      have "ancestry_inv st'"
        by (rule ancestry_inv_update [OF ainv ok2 in2, where k = input_id])
           (use p q A' in simp_all)
      moreover have "\<forall>a\<in>set zc'. \<forall>e\<in>set H'. right a \<le> fst e"
        unfolding zc' using zr p(5) by auto
      ultimately show ?thesis
        using p q ok2 in2 by (simp add: merge_inv_def)
    qed
  qed
qed

lemma merge_loop_inv:
  "merge_loop fuel input_id ms = Some (Inr st') \<Longrightarrow> merge_inv ms \<Longrightarrow>
   ancestry_inv st' \<and> self_m st' = self_m (fst ms) \<and> ts st' = ts (fst ms) \<and>
   sample st' = sample (fst ms)"
proof (induction fuel arbitrary: ms)
  case 0
  then show ?case
    by (cases ms) (auto simp: merge_inv_def split: if_splits)
next
  case (Suc fuel)
  obtain st H co u zc where ms: "ms = (st, H, co, u, zc)"
    by (metis prod_cases5)
  show ?case
  proof (cases "H = []")
    case True
    with Suc.prems ms show ?thesis
      by (auto simp: merge_inv_def)
  next
    case False
    with Suc.prems(1) ms obtain ms' where it: "merge_iteration input_id (st, H, co, u, zc) = Inr ms'"
      and rec: "merge_loop fuel input_id ms' = Some (Inr st')"
      by (auto split: sum.splits)
    obtain st1 H1 co1 u1 zc1 where ms': "ms' = (st1, H1, co1, u1, zc1)"
      by (metis prod_cases5)
    from merge_iteration_inv [OF _ False it [unfolded ms']] Suc.prems(2) ms
    have i: "merge_inv ms'" "self_m st1 = self_m st" "ts st1 = ts st" "sample st1 = sample st"
      by (simp_all add: ms')
    from Suc.IH [OF rec i(1)] i(2-4) show ?thesis
      by (simp add: ms ms')
  qed
qed

lemma merge_inv_start:
  "ancestry_inv st \<Longrightarrow> heap_inv (self_m st) H \<Longrightarrow> merge_inv (st, H, False, None, [])"
  by (simp add: merge_inv_def)

lemma merge_labeled_ancestors_inv:
  assumes "merge_labeled_ancestors fuel st H input_id = Some (Inr st')"
    and "ancestry_inv st" and "heap_inv (self_m st) H"
  shows "ancestry_inv st' \<and> self_m st' = self_m st \<and> ts st' = ts st \<and> sample st' = sample st"
  using merge_loop_inv [OF assms(1) [unfolded merge_labeled_ancestors_def]
      merge_inv_start [OF assms(2,3)]]
  by simp

lemma simplify_loop_inv:
  "simplify_loop fuel st ps = Some (Inr st') \<Longrightarrow> ancestry_inv st \<Longrightarrow>
   ancestry_inv st' \<and> self_m st' = self_m st \<and> ts st' = ts st \<and> sample st' = sample st"
proof (induction ps arbitrary: st)
  case Nil
  then show ?case by simp
next
  case (Cons p ps)
  show ?case
  proof (cases "A st = []")
    case True
    with Cons.prems show ?thesis by simp
  next
    case False
    let ?es = "filter (\<lambda>x. parent x = snd p) (ts_edgesets (ts st))"
    show ?thesis
    proof (cases "length ?es > 0")
      case no: False
      with False Cons.prems(1) have "simplify_loop fuel st ps = Some (Inr st')"
        by (simp add: Let_def)
      from Cons.IH [OF this Cons.prems(2)] show ?thesis .
    next
      case True
      obtain st1 H where ra: "remove_ancestry st ?es = (st1, H)"
        by (cases "remove_ancestry st ?es")
      with True False Cons.prems(1) obtain st2 where
        m: "merge_labeled_ancestors fuel st1 H (snd p) = Some (Inr st2)"
        and rec: "simplify_loop fuel st2 ps = Some (Inr st')"
        by (auto simp: Let_def split: option.splits sum.splits)
      note a = remove_ancestry_inv [OF ra Cons.prems(2)]
      from a have "ancestry_inv st1" "heap_inv (self_m st1) H"
        by simp_all
      note b = merge_labeled_ancestors_inv [OF m this]
      from b have "ancestry_inv st2"
        by simp
      from Cons.IH [OF rec this] a b show ?thesis
        by simp
    qed
  qed
qed

lemma init_sample_inv:
  assumes "init_sample js st = Inr st'" and "ancestry_inv st" and "0 < self_m st"
  shows "ancestry_inv st'"
proof -
  obtain j sample_id where js: "js = (j, sample_id)"
    by (cases js)
  let ?x = "\<lparr>left = 0, right = self_m st, node = j\<rparr>"
  let ?st2 = "(snd (alloc_segment st 0 (self_m st) j))
      \<lparr>A := AList.update sample_id [fst (alloc_segment st 0 (self_m st) j)]
        (A (snd (alloc_segment st 0 (self_m st) j)))\<rparr>"
  from assms(1) js obtain st3 where 3: "record_sample_node ?st2 sample_id = Inr st3"
    and st': "st' = record_mutations st3 sample_id 0 (self_m st3) (num_output_nodes st3 - 1)"
    by (auto simp: init_sample_def Let_def split: prod.splits sum.splits)
  note f = record_sample_node_frame [OF 3]
  have "chain_ok [?x]" "chain_within (self_m st) [?x]"
    using assms(3) by (simp_all add: chain_ok_Cons)
  from ancestry_inv_update [OF assms(2) this, where k = sample_id and st' = st']
  show ?thesis
    by (simp add: st' record_mutations_frame f alloc_segment_frame)
qed

lemma init_samples_inv:
  "init_samples jss st = Inr st' \<Longrightarrow> ancestry_inv st \<Longrightarrow> 0 < self_m st \<Longrightarrow> ancestry_inv st'"
proof (induction jss arbitrary: st)
  case Nil
  then show ?case by simp
next
  case (Cons js jss)
  from Cons.prems(1) obtain st1 where 1: "init_sample js st = Inr st1"
    and 2: "init_samples jss st1 = Inr st'"
    by (auto split: sum.splits)
  from init_sample_inv [OF 1 Cons.prems(2,3)] init_sample_frame(3) [OF 1] Cons.prems(3)
  have "ancestry_inv st1" "0 < self_m st1"
    by simp_all
  from Cons.IH [OF 2 this] show ?case .
qed

lemma Simplifier_init_inv:
  assumes "Simplifier_init t smp = Inr st" and "0 < sequence_length t"
  shows "ancestry_inv st"
proof -
  from assms(1) obtain st1 where 1: "init_samples (enumerate 0 smp) (new_simplifier t smp) = Inr st1"
    and st: "st = st1\<lparr>S := AList.update (self_m st1) (- 1) (AList.update 0 (int (self_n st1)) [])\<rparr>"
    by (auto simp: Simplifier_init_def split: sum.splits)
  have "ancestry_inv (new_simplifier t smp)" "0 < self_m (new_simplifier t smp)"
    using assms(2) by (simp_all add: ancestry_inv_def new_simplifier_def)
  from init_samples_inv [OF 1 this] have "ancestry_inv st1" .
  then show ?thesis
    by (rule ancestry_inv_same) (simp_all add: st)
qed

lemma merge_inv_sorted: "merge_inv ms \<Longrightarrow> chains_sorted (fst ms) (fst (snd ms))"
  by (cases ms) (auto simp: merge_inv_def ancestry_inv_def heap_inv_def chains_sorted_def)

lemma ancestry_inv_sorted: "ancestry_inv st \<Longrightarrow> chains_sorted st []"
  by (auto simp: ancestry_inv_def chains_sorted_def)

text \<open>
  Claim C4. Every chain reachable from \<open>A\<close> or from the heap \<open>H\<close> is in order (each segment
  has \<open>left < right\<close>, each segment ends no later than its successor begins) throughout
  \<open>simplify\<close>, and \<open>remove_ancestry\<close> and \<open>merge_labeled_ancestors\<close> preserve this. The
  invariant that carries it: \<open>ancestry_inv\<close> holds after the constructor when the sequence
  length is positive; \<open>remove_ancestry\<close> takes it to \<open>merge_inv\<close> of the state in which the
  merge loop starts; every round of the merge loop preserves \<open>merge_inv\<close>; a call of
  \<open>merge_labeled_ancestors\<close> that returns gives \<open>ancestry_inv\<close> back; both invariants
  imply that the chains are in order; so they are in order wherever the main loop stands.
\<close>

theorem chains_stay_sorted:
  "(0 < sequence_length t \<and> Simplifier_init t smp = Inr st0 \<longrightarrow> ancestry_inv st0) \<and>
   (ancestry_inv st \<and> remove_ancestry st es = (st1, H) \<longrightarrow>
      merge_inv (st1, H, False, None, [])) \<and>
   (merge_inv ms \<and> fst (snd ms) \<noteq> [] \<and> merge_iteration input_id ms = Inr ms' \<longrightarrow>
      merge_inv ms') \<and>
   (merge_inv (st1, H, False, None, []) \<and>
    merge_labeled_ancestors fuel st1 H input_id = Some (Inr st2) \<longrightarrow> ancestry_inv st2) \<and>
   (merge_inv ms \<longrightarrow> chains_sorted (fst ms) (fst (snd ms))) \<and>
   (ancestry_inv st \<longrightarrow> chains_sorted st []) \<and>
   (0 < sequence_length t \<and> Simplifier_init t smp = Inr st0 \<and>
    simplify_loop fuel st0 ps = Some (Inr st3) \<longrightarrow> chains_sorted st3 [])"
proof (intro conjI impI)
  assume "0 < sequence_length t \<and> Simplifier_init t smp = Inr st0"
  then show "ancestry_inv st0"
    using Simplifier_init_inv [of t smp st0] by simp
next
  assume a: "ancestry_inv st \<and> remove_ancestry st es = (st1, H)"
  then have "remove_ancestry st es = (st1, H)" "ancestry_inv st"
    by simp_all
  from remove_ancestry_inv [OF this] show "merge_inv (st1, H, False, None, [])"
    by (simp add: merge_inv_start)
next
  assume a: "merge_inv ms \<and> fst (snd ms) \<noteq> [] \<and> merge_iteration input_id ms = Inr ms'"
  obtain sa Ha ca ua za where ms: "ms = (sa, Ha, ca, ua, za)"
    by (metis prod_cases5)
  obtain sb Hb cb ub zb where ms': "ms' = (sb, Hb, cb, ub, zb)"
    by (metis prod_cases5)
  from a have "merge_inv (sa, Ha, ca, ua, za)" "Ha \<noteq> []"
    "merge_iteration input_id (sa, Ha, ca, ua, za) = Inr (sb, Hb, cb, ub, zb)"
    by (simp_all add: ms ms')
  from merge_iteration_inv [OF this] show "merge_inv ms'"
    by (simp add: ms')
next
  assume a: "merge_inv (st1, H, False, None, []) \<and>
    merge_labeled_ancestors fuel st1 H input_id = Some (Inr st2)"
  then have "merge_labeled_ancestors fuel st1 H input_id = Some (Inr st2)"
    "ancestry_inv st1" "heap_inv (self_m st1) H"
    by (simp_all add: merge_inv_def)
  from merge_labeled_ancestors_inv [OF this] show "ancestry_inv st2"
    by simp
next
  assume "merge_inv ms"
  then show "chains_sorted (fst ms) (fst (snd ms))"
    by (rule merge_inv_sorted)
next
  assume "ancestry_inv st"
  then show "chains_sorted st []"
    by (rule ancestry_inv_sorted)
next
  assume a: "0 < sequence_length t \<and> Simplifier_init t smp = Inr st0 \<and>
    simplify_loop fuel st0 ps = Some (Inr st3)"
  then have "ancestry_inv st0"
    using Simplifier_init_inv [of t smp st0] by simp
  with a have "ancestry_inv st3"
    using simplify_loop_inv [of fuel st0 ps st3] by simp
  then show "chains_sorted st3 []"
    by (rule ancestry_inv_sorted)
qed

theorem chains_stay_sorted_witness:
  "ancestry_inv st_half \<and> merge_inv ms_half \<and>
   merge_inv (projr (merge_iteration 2 ms_half)) \<and>
   ancestry_inv (projr (the (merge_labeled_ancestors 2 (fst ms_half) (fst (snd ms_half)) 2))) \<and>
   chains_sorted (fst ms_half) (fst (snd ms_half)) \<and>
   chains_sorted st_half [] \<and>
   chains_sorted (projr (the (simplify_loop 2 st_half (the_parents ts_half)))) []"
proof -
  have h1: "0 < sequence_length ts_half"
    by code_simp
  have h2: "Simplifier_init ts_half [0, 1] = Inr st_half"
    by code_simp
  have h3: "remove_ancestry st_half (ts_edgesets ts_half) = (fst ms_half, fst (snd ms_half))"
    by (simp add: ms_half_def)
  have h4: "ms_half = (fst ms_half, fst (snd ms_half), False, None, [])"
    by (simp add: ms_half_def)
  have h5: "fst (snd ms_half) \<noteq> []"
    by code_simp
  have h6: "merge_iteration 2 ms_half = Inr (projr (merge_iteration 2 ms_half))"
    by code_simp
  have h7: "merge_labeled_ancestors 2 (fst ms_half) (fst (snd ms_half)) 2 =
      Some (Inr (projr (the (merge_labeled_ancestors 2 (fst ms_half) (fst (snd ms_half)) 2))))"
    by code_simp
  have h8: "simplify_loop 2 st_half (the_parents ts_half) =
      Some (Inr (projr (the (simplify_loop 2 st_half (the_parents ts_half)))))"
    by code_simp
  note w = chains_stay_sorted [where t = ts_half and smp = "[0, 1]" and ?st0.0 = st_half
      and st = st_half and es = "ts_edgesets ts_half" and ?st1.0 = "fst ms_half"
      and H = "fst (snd ms_half)" and ms = ms_half and input_id = 2
      and ms' = "projr (merge_iteration 2 ms_half)" and fuel = 2
      and ?st2.0 = "projr (the (merge_labeled_ancestors 2 (fst ms_half) (fst (snd ms_half)) 2))"
      and ps = "the_parents ts_half"
      and ?st3.0 = "projr (the (simplify_loop 2 st_half (the_parents ts_half)))"]
  from w h1 h2 have a: "ancestry_inv st_half"
    by blast
  with w h3 have b: "merge_inv (fst ms_half, fst (snd ms_half), False, None, [])"
    by blast
  with h4 have b': "merge_inv ms_half"
    by simp
  from w b' h5 h6 have c: "merge_inv (projr (merge_iteration 2 ms_half))"
    by blast
  from w b h7 have d: "ancestry_inv (projr (the (merge_labeled_ancestors 2 (fst ms_half)
      (fst (snd ms_half)) 2)))"
    by blast
  from w b' have e: "chains_sorted (fst ms_half) (fst (snd ms_half))"
    by blast
  from w a have f: "chains_sorted st_half []"
    by blast
  from w h1 h2 h8 have g: "chains_sorted (projr (the (simplify_loop 2 st_half
      (the_parents ts_half)))) []"
    by blast
  from a b' c d e f g show ?thesis
    by blast
qed

subsection \<open>One round of the merge loop\<close>

lemma merge_right_endpoint_frame:
  assumes "merge_right_endpoint st input_id l r_max k u = Inr (r, alpha, st')"
  shows "A st' = A st \<and> self_m st' = self_m st \<and> ts st' = ts st \<and> sample st' = sample st \<and>
    edgeset_table st' = edgeset_table st \<and> last_edgeset st' = last_edgeset st"
  using assms
  by (auto simp: merge_right_endpoint_def Let_def alloc_segment_def
      split: sum.splits if_splits dest!: update_ancestral_state_same)

lemma merge_overlap_x_frame:
  "A (fst (merge_overlap_x r u xn acc)) = A (fst acc) \<and>
   self_m (fst (merge_overlap_x r u xn acc)) = self_m (fst acc) \<and>
   edgeset_table (fst (merge_overlap_x r u xn acc)) = edgeset_table (fst acc) \<and>
   last_edgeset (fst (merge_overlap_x r u xn acc)) = last_edgeset (fst acc)"
  by (auto simp: merge_overlap_x_def Let_def free_segment_def split: prod.splits list.splits)

lemma merge_overlap_xs_frame:
  "A (fst (fold (merge_overlap_x r u) X acc)) = A (fst acc) \<and>
   self_m (fst (fold (merge_overlap_x r u) X acc)) = self_m (fst acc) \<and>
   edgeset_table (fst (fold (merge_overlap_x r u) X acc)) = edgeset_table (fst acc) \<and>
   last_edgeset (fst (fold (merge_overlap_x r u) X acc)) = last_edgeset (fst acc)"
  by (induction X arbitrary: acc) (simp_all add: merge_overlap_x_frame)

lemma merge_singleton_frame:
  assumes "merge_singleton st H xn = (alpha, st1, H2)"
  shows "A st1 = A st \<and> self_m st1 = self_m st \<and>
    edgeset_table st1 = edgeset_table st \<and> last_edgeset st1 = last_edgeset st"
  using assms
  by (auto simp: merge_singleton_def Let_def alloc_segment_def split: prod.splits if_splits)

lemma merge_overlap_steps:
  assumes "merge_overlap input_id l r_max X st H co u = Inr (alpha, st', H', co', u')"
  shows "\<exists>uv st1 sm1 sm2 r st2 st3 cs.
    merge_output_node st input_id co u = Inr (Some uv, st1) \<and>
    S_ensure_key (S st) l = Inr sm1 \<and> S_ensure_key sm1 r_max = Inr sm2 \<and>
    merge_right_endpoint (st1\<lparr>S := sm2\<rparr>) input_id l r_max (length X) uv = Inr (r, alpha, st2) \<and>
    st' = record_edgeset st3 l r uv cs \<and> u' = Some uv \<and>
    A st3 = A st \<and> edgeset_table st3 = edgeset_table st \<and> last_edgeset st3 = last_edgeset st"
proof -
  from assms obtain uv st1 sm1 sm2 r st2 st3 cs where
    n: "merge_output_node st input_id co u = Inr (Some uv, st1)"
    and k1: "S_ensure_key (S st1) l = Inr sm1" and k2: "S_ensure_key sm1 r_max = Inr sm2"
    and ep: "merge_right_endpoint (st1\<lparr>S := sm2\<rparr>) input_id l r_max (length X) uv = Inr (r, alpha, st2)"
    and xs: "fold (merge_overlap_x r uv) X (st2, H, []) = (st3, H', cs)"
    and st': "st' = record_edgeset st3 l r uv cs" and u': "u' = Some uv"
    unfolding merge_overlap_def
    by (auto split: sum.splits option.splits prod.splits)
  note f1 = merge_output_node_frame [OF n]
  note f2 = merge_right_endpoint_frame [OF ep]
  from merge_overlap_xs_frame [of r uv X "(st2, H, [])"] xs
  have f3: "A st3 = A st2 \<and> edgeset_table st3 = edgeset_table st2 \<and>
      last_edgeset st3 = last_edgeset st2"
    by simp
  from f1 k1 have k1': "S_ensure_key (S st) l = Inr sm1"
    by simp
  from f1 f2 f3 have "A st3 = A st \<and> edgeset_table st3 = edgeset_table st \<and>
      last_edgeset st3 = last_edgeset st"
    by simp
  with n k1' k2 ep st' u' show ?thesis
    by blast
qed


text \<open>
  Claim C3. In every round of \<open>merge_labeled_ancestors\<close> with \<open>|X| \<ge> 2\<close> a segment
  \<open>alpha = (l, r, u)\<close> is to be allocated and appended to the chain of \<open>input_id\<close> in \<open>A\<close>,
  also when \<open>S[l] == |X|\<close>. On \<open>ts_half\<close> the first round for parent 2 has \<open>|X| = 2\<close>,
  \<open>l = 0\<close> and \<open>S[0] = 2\<close>: after it \<open>A\<close> holds the chains of the leaves 0 and 1 only, the chain
  built for parent 2 is empty, and the counter has gone from 4 to 2 (two segments freed,
  none allocated), while the edgeset \<open>(0, 5, 2, [0, 1])\<close> is pending.
\<close>

theorem merge_unity_allocates_nothing:
  "length (fst (snd (drain 0 (fst (snd ms_half)) [] (self_m (fst ms_half) + 1)))) = 2 \<and>
   fst (hd (fst (snd ms_half))) = 0 \<and>
   S_get (S (fst ms_half)) 0 = Inr 2 \<and>
   num_used_segments (fst ms_half) = 4 \<and>
   map_sum id (\<lambda>ms. (A (fst ms), snd (snd (snd (snd ms))), num_used_segments (fst ms),
                      last_edgeset (fst ms)))
     (merge_iteration 2 ms_half)
   = Inr ([(0, [\<lparr>left = 5, right = 10, node = 0\<rparr>]), (1, [\<lparr>left = 5, right = 10, node = 1\<rparr>])],
          [], 2, Some (0, 5, 2, [0, 1]))"
  by code_simp


text \<open>
  Claim C3, as the code has it. In a round with \<open>|X| \<noteq> 1\<close> that completes, let \<open>sm\<close> be \<open>S\<close>
  once the keys \<open>l\<close> and \<open>r_max\<close> are in it. When \<open>sm[l] \<noteq> |X|\<close>, \<open>r\<close> is found by the walk
  along \<open>succ_key\<close> and the segment \<open>(l, r, u)\<close> is appended to the chain of \<open>input_id\<close>, which
  \<open>A\<close> holds. When \<open>sm[l] = |X|\<close>, \<open>r\<close> is \<open>succ_key(l)\<close>, no segment is appended and \<open>A\<close> is as
  it was before the round.
\<close>

theorem merge_iteration_alpha:
  assumes it: "merge_iteration input_id (st, H, co, u, zc) = Inr (st', H', co', u', zc')"
    and d: "drain l H [] (self_m st + 1) = (H1, X, r0)"
    and l: "l = fst (hd H)"
    and rm: "r_max = (if H1 \<noteq> [] then min r0 (fst (hd H1)) else r0)"
    and X: "length X \<noteq> 1"
  shows "\<exists>uv sm1 sm v. u' = Some uv \<and>
    S_ensure_key (S st) l = Inr sm1 \<and> S_ensure_key sm1 r_max = Inr sm \<and> S_get sm l = Inr v \<and>
    (if v = int (length X)
     then (\<exists>r. succ_key (AList.update l 0 sm) l = Inr r) \<and> zc' = zc \<and> A st' = A st
     else (\<exists>r sm'. S_walk sm l r_max (int (length X)) = Inr (sm', r) \<and>
            zc' = zc @ [\<lparr>left = l, right = r, node = uv\<rparr>] \<and>
            map_of (A st') input_id = Some zc'))"
proof -
  from it d X l rm obtain alpha st1 where
    ov: "merge_overlap input_id l r_max X st H1 co u = Inr (alpha, st1, H', co', u')"
    and tl: "merge_tail input_id alpha zc st1 = (zc', st')"
    by (auto simp: merge_iteration_def Let_def split: sum.splits prod.splits)
  from merge_overlap_steps [OF ov] obtain uv sa sm1 sm2 r st2 st3 cs where
    s: "S_ensure_key (S st) l = Inr sm1" "S_ensure_key sm1 r_max = Inr sm2"
    "merge_right_endpoint (sa\<lparr>S := sm2\<rparr>) input_id l r_max (length X) uv = Inr (r, alpha, st2)"
    "st1 = record_edgeset st3 l r uv cs" "u' = Some uv" "A st3 = A st"
    by blast
  from s(4,6) have A1: "A st1 = A st"
    by (simp add: record_edgeset_frame)
  from s(3) obtain v where v: "S_get sm2 l = Inr v"
    by (auto simp: merge_right_endpoint_def split: sum.splits)
  note q = merge_tail_props [OF tl]
  have "if v = int (length X)
     then (\<exists>r. succ_key (AList.update l 0 sm2) l = Inr r) \<and> zc' = zc \<and> A st' = A st
     else (\<exists>r sm'. S_walk sm2 l r_max (int (length X)) = Inr (sm', r) \<and>
            zc' = zc @ [\<lparr>left = l, right = r, node = uv\<rparr>] \<and>
            map_of (A st') input_id = Some zc')"
  proof (cases "v = int (length X)")
    case True
    with s(3) v have "succ_key (AList.update l 0 sm2) l = Inr r" "alpha = None"
      by (auto simp: merge_right_endpoint_def Let_def split: sum.splits)
    with q A1 True show ?thesis
      by auto
  next
    case False
    with s(3) v obtain sm' where "S_walk sm2 l r_max (int (length X)) = Inr (sm', r)"
      "alpha = Some \<lparr>left = l, right = r, node = uv\<rparr>"
      by (auto simp: merge_right_endpoint_def Let_def alloc_segment_def split: sum.splits)
    with q False show ?thesis
      by (auto simp: update_conv')
  qed
  with s(1,2,5) v show ?thesis
    by blast
qed

theorem merge_iteration_alpha_witness:
  "A (fst (projr (merge_iteration 2 ms_half))) = A (fst ms_half) \<and>
   snd (snd (snd (snd (projr (merge_iteration 2 ms_half))))) = [] \<and>
   (\<exists>r. map_of (A (fst (projr (merge_iteration 3 ms_three)))) 3 =
          Some [\<lparr>left = 0, right = r, node = 3\<rparr>])"
proof -
  let ?ms' = "projr (merge_iteration 2 ms_half)"
  let ?H = "fst (snd ms_half)"
  let ?d = "drain 0 ?H [] (self_m (fst ms_half) + 1)"
  have h1: "merge_iteration 2 (fst ms_half, ?H, False, None, []) =
      Inr (fst ?ms', fst (snd ?ms'), fst (snd (snd ?ms')), fst (snd (snd (snd ?ms'))),
           snd (snd (snd (snd ?ms'))))"
    by code_simp
  have h2: "?d = (fst ?d, fst (snd ?d), snd (snd ?d))"
    by simp
  have h3: "(0::rat) = fst (hd ?H)"
    by code_simp
  have h4: "(5::rat) = (if fst ?d \<noteq> [] then min (snd (snd ?d)) (fst (hd (fst ?d))) else snd (snd ?d))"
    by code_simp
  have h5: "length (fst (snd ?d)) \<noteq> 1"
    by code_simp
  have h6: "int (length (fst (snd ?d))) = 2"
    by code_simp
  have k1: "S_ensure_key (S (fst ms_half)) 0 = Inr (S (fst ms_half))"
    by code_simp
  have k2: "S_ensure_key (S (fst ms_half)) 5 = Inr ((S (fst ms_half)) @ [(5, 2)])"
    by code_simp
  have k3: "S_get ((S (fst ms_half)) @ [(5, 2)]) 0 = Inr 2"
    by code_simp
  from merge_iteration_alpha [OF h1 h2 h3 h4 h5] k1 k2 k3
  have half: "snd (snd (snd (snd ?ms'))) = [] \<and> A (fst ?ms') = A (fst ms_half)"
    unfolding h6 by auto
  let ?ns' = "projr (merge_iteration 3 ms_three)"
  let ?G = "fst (snd ms_three)"
  let ?e = "drain 0 ?G [] (self_m (fst ms_three) + 1)"
  have g1: "merge_iteration 3 (fst ms_three, ?G, False, None, []) =
      Inr (fst ?ns', fst (snd ?ns'), fst (snd (snd ?ns')), fst (snd (snd (snd ?ns'))),
           snd (snd (snd (snd ?ns'))))"
    by code_simp
  have g2: "?e = (fst ?e, fst (snd ?e), snd (snd ?e))"
    by simp
  have g3: "(0::rat) = fst (hd ?G)"
    by code_simp
  have g4: "(10::rat) = (if fst ?e \<noteq> [] then min (snd (snd ?e)) (fst (hd (fst ?e))) else snd (snd ?e))"
    by code_simp
  have g5: "length (fst (snd ?e)) \<noteq> 1"
    by code_simp
  have g6: "int (length (fst (snd ?e))) = 2"
    by code_simp
  have j1: "S_ensure_key (S (fst ms_three)) 0 = Inr (S (fst ms_three))"
    by code_simp
  have j2: "S_ensure_key (S (fst ms_three)) 10 = Inr (S (fst ms_three))"
    by code_simp
  have j3: "S_get (S (fst ms_three)) 0 = Inr 3"
    by code_simp
  have j4: "fst (snd (snd (snd ?ns'))) = Some 3"
    by code_simp
  from merge_iteration_alpha [OF g1 g2 g3 g4 g5] j1 j2 j3 j4
  have "\<exists>r. map_of (A (fst ?ns')) 3 = Some [\<lparr>left = 0, right = r, node = 3\<rparr>]"
    unfolding g6 by auto
  with half show ?thesis
    by blast
qed


subsection \<open>Squashing\<close>

lemma squash_inv_cong:
  "edgeset_table st' = edgeset_table st \<Longrightarrow> last_edgeset st' = last_edgeset st \<Longrightarrow>
   squash_inv st' = squash_inv st"
  by (simp add: squash_inv_def pending_rows_def)

lemma record_edgeset_squash_inv:
  assumes "squash_inv st"
  shows "squash_inv (record_edgeset st l r p c)"
proof (cases "last_edgeset st")
  case None
  with assms show ?thesis
    by (simp add: squash_inv_def pending_rows_def squash_complete_def record_edgeset_def)
next
  case (Some row)
  obtain L R P C where row: "row = (L, R, P, C)"
    by (metis prod_cases4)
  from assms Some row have inv: "successively (\<lambda>a b. \<not> squashable a b) (edgeset_table st @ [(L, R, P, C)])"
    by (simp add: squash_inv_def pending_rows_def squash_complete_def)
  show ?thesis
  proof (cases "P = p \<and> C = sort c \<and> R = l")
    case True
    have "successively (\<lambda>a b. \<not> squashable a b) (edgeset_table st @ [(L, r, P, C)])"
      using inv by (auto simp: successively_append_iff squashable_def)
    with True Some row show ?thesis
      by (simp add: squash_inv_def pending_rows_def squash_complete_def record_edgeset_def)
  next
    case False
    then have "\<not> squashable (L, R, P, C) (l, r, p, sort c)"
      by (auto simp: squashable_def)
    with inv have "successively (\<lambda>a b. \<not> squashable a b)
        ((edgeset_table st @ [(L, R, P, C)]) @ [(l, r, p, sort c)])"
      by (subst successively_append_iff) simp
    with False Some row show ?thesis
      by (auto simp: squash_inv_def pending_rows_def squash_complete_def record_edgeset_def)
  qed
qed

lemma merge_iteration_squash_inv:
  assumes "merge_iteration input_id (st, H, co, u, zc) = Inr (st', H', co', u', zc')"
    and "squash_inv st"
  shows "squash_inv st'"
proof -
  obtain H1 X r0 where d: "drain (fst (hd H)) H [] (self_m st + 1) = (H1, X, r0)"
    by (metis prod_cases3)
  show ?thesis
  proof (cases "length X = 1")
    case True
    obtain alpha st1 H2 where s: "merge_singleton st H1 (hd X) = (alpha, st1, H2)"
      by (metis prod_cases3)
    obtain zc2 st2 where tl: "merge_tail input_id (Some alpha) zc st1 = (zc2, st2)"
      by (cases "merge_tail input_id (Some alpha) zc st1")
    from assms(1) d True s tl have "st' = st2"
      by (simp add: merge_iteration_def Let_def)
    with merge_singleton_frame [OF s] merge_tail_props [OF tl] assms(2) show ?thesis
      by (simp add: squash_inv_cong [of st2 st])
  next
    case False
    with assms(1) d obtain alpha st1 l r_max where
      ov: "merge_overlap input_id l r_max X st H1 co u = Inr (alpha, st1, H', co', u')"
      and tl: "merge_tail input_id alpha zc st1 = (zc', st')"
      by (auto simp: merge_iteration_def Let_def split: sum.splits prod.splits)
    from merge_overlap_steps [OF ov] obtain r uv cs st3 where
      s: "st1 = record_edgeset st3 l r uv cs" "edgeset_table st3 = edgeset_table st"
      "last_edgeset st3 = last_edgeset st"
      by blast
    from s(2,3) assms(2) have "squash_inv st3"
      by (simp add: squash_inv_cong [of st3 st])
    then have "squash_inv st1"
      unfolding s(1) by (rule record_edgeset_squash_inv)
    with merge_tail_props [OF tl] show ?thesis
      by (simp add: squash_inv_cong [of st' st1])
  qed
qed

lemma merge_loop_squash_inv:
  "merge_loop fuel input_id ms = Some (Inr st') \<Longrightarrow> squash_inv (fst ms) \<Longrightarrow> squash_inv st'"
proof (induction fuel arbitrary: ms)
  case 0
  then show ?case
    by (auto split: if_splits)
next
  case (Suc fuel)
  obtain st H co u zc where ms: "ms = (st, H, co, u, zc)"
    by (metis prod_cases5)
  show ?case
  proof (cases "H = []")
    case True
    with Suc.prems ms show ?thesis
      by auto
  next
    case False
    with Suc.prems(1) ms obtain ms' where it: "merge_iteration input_id (st, H, co, u, zc) = Inr ms'"
      and rec: "merge_loop fuel input_id ms' = Some (Inr st')"
      by (auto split: sum.splits)
    obtain st1 H1 co1 u1 zc1 where ms': "ms' = (st1, H1, co1, u1, zc1)"
      by (metis prod_cases5)
    from merge_iteration_squash_inv [OF it [unfolded ms']] Suc.prems(2) ms
    have "squash_inv (fst ms')"
      by (simp add: ms')
    from Suc.IH [OF rec this] show ?thesis .
  qed
qed

lemma remove_ancestry_children_tables:
  "edgeset_table (fst (fold (remove_ancestry_child e) cs acc)) = edgeset_table (fst acc) \<and>
   last_edgeset (fst (fold (remove_ancestry_child e) cs acc)) = last_edgeset (fst acc)"
proof (induction cs arbitrary: acc)
  case Nil
  show ?case by simp
next
  case (Cons child cs)
  obtain st H where acc: "acc = (st, H)"
    by (cases acc)
  obtain st1 H1 where 1: "remove_ancestry_child e child (st, H) = (st1, H1)"
    by (cases "remove_ancestry_child e child (st, H)")
  from remove_ancestry_child_frame [OF 1] Cons.IH [of "(st1, H1)"] show ?case
    by (simp add: acc 1)
qed

lemma remove_ancestry_tables:
  assumes "remove_ancestry st es = (st', H)"
  shows "edgeset_table st' = edgeset_table st \<and> last_edgeset st' = last_edgeset st"
proof -
  have "edgeset_table (fst (fold (\<lambda>e acc. fold (remove_ancestry_child e) (children e) acc) es acc))
      = edgeset_table (fst acc) \<and>
    last_edgeset (fst (fold (\<lambda>e acc. fold (remove_ancestry_child e) (children e) acc) es acc))
      = last_edgeset (fst acc)" for acc
    by (induction es arbitrary: acc) (simp_all add: remove_ancestry_children_tables)
  from this [of "(st, [])"] assms show ?thesis
    by (simp add: remove_ancestry_def)
qed

lemma simplify_loop_squash_inv:
  "simplify_loop fuel st ps = Some (Inr st') \<Longrightarrow> squash_inv st \<Longrightarrow> squash_inv st'"
proof (induction ps arbitrary: st)
  case Nil
  then show ?case by simp
next
  case (Cons p ps)
  show ?case
  proof (cases "A st = []")
    case True
    with Cons.prems show ?thesis by simp
  next
    case False
    let ?es = "filter (\<lambda>x. parent x = snd p) (ts_edgesets (ts st))"
    show ?thesis
    proof (cases "length ?es > 0")
      case no: False
      with False Cons.prems(1) have "simplify_loop fuel st ps = Some (Inr st')"
        by (simp add: Let_def)
      from Cons.IH [OF this Cons.prems(2)] show ?thesis .
    next
      case True
      obtain st1 H where ra: "remove_ancestry st ?es = (st1, H)"
        by (cases "remove_ancestry st ?es")
      with True False Cons.prems(1) obtain st2 where
        m: "merge_loop fuel (snd p) (st1, H, False, None, []) = Some (Inr st2)"
        and rec: "simplify_loop fuel st2 ps = Some (Inr st')"
        by (auto simp: Let_def merge_labeled_ancestors_def split: option.splits sum.splits)
      from remove_ancestry_tables [OF ra] Cons.prems(2) have "squash_inv st1"
        by (simp add: squash_inv_cong [of st1 st])
      with merge_loop_squash_inv [OF m] have "squash_inv st2"
        by simp
      from Cons.IH [OF rec this] show ?thesis .
    qed
  qed
qed

lemma run_simplify_squash_complete:
  assumes "run_simplify fuel t smp = Some (Inr (st', out))"
  shows "squash_complete (out_edgesets out)"
proof -
  from assms obtain st0 st1 where i: "Simplifier_init t smp = Inr st0"
    and l: "simplify_loop fuel st0 (the_parents (ts st0)) = Some (Inr st1)"
    and f: "simplify_finish st1 = Inr (st', out)"
    by (auto simp: run_simplify_def simplify_def split: sum.splits option.splits)
  from Simplifier_init_frame [OF i] have "squash_inv st0"
    by (simp add: squash_inv_def pending_rows_def squash_complete_def)
  with simplify_loop_squash_inv [OF l] have "squash_inv st1"
    by simp
  moreover from f have "out_edgesets out = pending_rows st1"
    by (auto simp: simplify_finish_def pending_rows_def Let_def split: option.splits sum.splits)
  ultimately show ?thesis
    by (simp add: squash_inv_def)
qed


text \<open>
  Claim C5. With a pending buffer \<open>(L, R, P, C)\<close>, \<open>record_edgeset\<close> squashes exactly when
  \<open>P\<close> is the parent, \<open>C\<close> the sorted children and \<open>R\<close> the left end, and then the buffer
  becomes \<open>(L, right, P, C)\<close>; otherwise it moves the buffer to the table and makes the new
  edgeset pending. With an empty buffer the new edgeset becomes pending. In the edgeset
  table \<open>simplify\<close> returns, no two adjacent rows can be squashed.
\<close>

theorem record_edgeset_squashes:
  "(last_edgeset st = Some (L, R, P, C) \<longrightarrow>
      record_edgeset st l r p c =
        (if P = p \<and> C = sort c \<and> R = l
         then st\<lparr>last_edgeset := Some (L, r, P, C)\<rparr>
         else st\<lparr>edgeset_table := edgeset_table st @ [(L, R, P, C)],
                 last_edgeset := Some (l, r, p, sort c)\<rparr>)) \<and>
   (last_edgeset st = None \<longrightarrow>
      record_edgeset st l r p c = st\<lparr>last_edgeset := Some (l, r, p, sort c)\<rparr>) \<and>
   (run_simplify fuel t smp = Some (Inr (st', out)) \<longrightarrow> squash_complete (out_edgesets out))"
  by (auto simp: record_edgeset_def run_simplify_squash_complete)

theorem record_edgeset_squashes_witness:
  "record_edgeset st_with_site 10 20 2 [1, 0] = st_with_site\<lparr>last_edgeset := Some (0, 20, 2, [0, 1])\<rparr> \<and>
   record_edgeset st_with_site 10 20 3 [1, 0] =
     st_with_site\<lparr>edgeset_table := [(0, 10, 2, [0, 1])], last_edgeset := Some (10, 20, 3, [0, 1])\<rparr> \<and>
   record_edgeset (new_simplifier ts_whole [0, 1]) 0 5 2 [1, 0] =
     (new_simplifier ts_whole [0, 1])\<lparr>last_edgeset := Some (0, 5, 2, [0, 1])\<rparr> \<and>
   out_edgesets (snd (projr (the (run_simplify 4 ts_split [0, 1])))) = [(0, 10, 2, [0, 1])] \<and>
   squash_complete (out_edgesets (snd (projr (the (run_simplify 4 ts_split [0, 1])))))"
proof -
  have h1: "last_edgeset st_with_site = Some (0, 10, 2, [0, 1])"
    by code_simp
  have h2: "edgeset_table st_with_site = []"
    by code_simp
  have h3: "sort [1, 0 :: nat] = [0, 1]"
    by code_simp
  have h4: "last_edgeset (new_simplifier ts_whole [0, 1]) = None"
    by code_simp
  have h5: "run_simplify 4 ts_split [0, 1] =
      Some (Inr (fst (projr (the (run_simplify 4 ts_split [0, 1]))),
                 snd (projr (the (run_simplify 4 ts_split [0, 1])))))"
    by code_simp
  have h6: "out_edgesets (snd (projr (the (run_simplify 4 ts_split [0, 1])))) = [(0, 10, 2, [0, 1])]"
    by code_simp
  note a = record_edgeset_squashes [where st = st_with_site and L = 0 and R = 10 and P = 2
      and C = "[0, 1]" and l = 10 and r = 20 and p = 2 and c = "[1, 0]" and fuel = 4
      and t = ts_split and smp = "[0, 1]"
      and st' = "fst (projr (the (run_simplify 4 ts_split [0, 1])))"
      and out = "snd (projr (the (run_simplify 4 ts_split [0, 1])))"]
  note b = record_edgeset_squashes [where st = st_with_site and L = 0 and R = 10 and P = 2
      and C = "[0, 1]" and l = 10 and r = 20 and p = 3 and c = "[1, 0]"]
  note c = record_edgeset_squashes [where st = "new_simplifier ts_whole [0, 1]"
      and l = 0 and r = 5 and p = 2 and c = "[1, 0]"]
  from a h1 h3 have 1: "record_edgeset st_with_site 10 20 2 [1, 0] =
      st_with_site\<lparr>last_edgeset := Some (0, 20, 2, [0, 1])\<rparr>"
    by simp
  from b h1 h2 h3 have 2: "record_edgeset st_with_site 10 20 3 [1, 0] =
      st_with_site\<lparr>edgeset_table := [(0, 10, 2, [0, 1])],
        last_edgeset := Some (10, 20, 3, [0, 1])\<rparr>"
    by simp
  from c h4 h3 have 3: "record_edgeset (new_simplifier ts_whole [0, 1]) 0 5 2 [1, 0] =
      (new_simplifier ts_whole [0, 1])\<lparr>last_edgeset := Some (0, 5, 2, [0, 1])\<rparr>"
    by simp
  from a h5 have 4: "squash_complete (out_edgesets (snd (projr (the (run_simplify 4 ts_split [0, 1])))))"
    by blast
  from 1 2 3 4 h6 show ?thesis
    by blast
qed

end
